theory Spec2Isabelle
  imports Main
begin

section \<open>The circular deque of package deque (deque.go)\<close>

text \<open>
  The Go package implements a double-ended queue on one slice that is used as a ring.
  The model follows deque.go function by function.

  \<^item> Go's \<open>int\<close> is 64 bits wide and its arithmetic wraps around. The three
    computations that can leave the range on a deque that Go can hold are wrapped
    explicitly with \<open>wrap64\<close>: \<open>d.len+add\<close> and \<open>size *= 2\<close> in \<open>grow\<close>, and
    \<open>d.len*5\<close> in \<open>shrink\<close>. The other additions and subtractions move cursors and
    lengths by one inside the buffer, or compare them with its capacity, and stay between
    \<open>-1\<close> and the capacity of the slice.
  \<^item> The element type \<open>T\<close> is any type with a zero value, written \<open>0\<close>.
  \<^item> The field \<open>dat\<close> always holds a slice whose length equals its capacity (it comes from
    \<open>make([]T, size)\<close>, from \<open>dat[:cap(dat)]\<close>, or is nil), so it is a list, and
    \<open>cap(d.dat)\<close> is its length.
  \<^item> A run-time panic (index or slice bounds out of range, negative length in \<open>make\<close>) and
    a loop that never ends are values of type \<open>fault\<close>; every method that can reach one
    returns \<open>fault + result\<close>.
  \<^item> A method with a pointer receiver takes the deque and returns the deque it leaves.
  \<^item> A variadic call \<open>d.Push(s...)\<close> passes the slice \<open>s\<close> itself, which may share its
    array with the buffer of the deque; the argument is therefore a list of slots, each
    either storage of its own or a slot of the buffer, and the loop over the argument
    reads each slot when its turn comes.
\<close>

subsection \<open>Go primitives on integers and slices\<close>

text \<open>The value that 64-bit two's complement arithmetic keeps of an exact result.\<close>

definition wrap64 :: "int \<Rightarrow> int" where
  "wrap64 x = (x + 2 ^ 63) mod 2 ^ 64 - 2 ^ 63"

datatype fault = IndexOutOfRange | SliceBoundsOutOfRange | MakeLenOutOfRange | Diverges

definition cap :: "'a list \<Rightarrow> int" where
  "cap xs = int (length xs)"

text \<open>\<open>make([]T, size)\<close>: a fresh slice of zero values; a negative size panics.\<close>

definition make_go :: "int \<Rightarrow> fault + ('a::zero) list" where
  "make_go sz = (if sz < 0 then Inl MakeLenOutOfRange else Inr (replicate (nat sz) 0))"

text \<open>\<open>xs[i]\<close> as a value and \<open>xs[i] = v\<close>, both with Go's bounds check.\<close>

definition index_go :: "'a list \<Rightarrow> int \<Rightarrow> fault + 'a" where
  "index_go xs i = (if 0 \<le> i \<and> i < cap xs then Inr (xs ! nat i) else Inl IndexOutOfRange)"

definition store_go :: "'a list \<Rightarrow> int \<Rightarrow> 'a \<Rightarrow> fault + 'a list" where
  "store_go xs i v = (if 0 \<le> i \<and> i < cap xs then Inr (xs[nat i := v]) else Inl IndexOutOfRange)"

text \<open>\<open>xs[lo:hi]\<close>: Go requires \<open>0 <= lo <= hi <= cap(xs)\<close>.\<close>

definition slice_go :: "'a list \<Rightarrow> int \<Rightarrow> int \<Rightarrow> fault + 'a list" where
  "slice_go xs lo hi =
     (if 0 \<le> lo \<and> lo \<le> hi \<and> hi \<le> cap xs
      then Inr (take (nat (hi - lo)) (drop (nat lo) xs))
      else Inl SliceBoundsOutOfRange)"

text \<open>
  \<open>copy(dst, src)\<close> overwrites the first \<open>min(len(dst), len(src))\<close> elements of \<open>dst\<close>
  and returns that number; the model returns the new \<open>dst\<close> with it.
\<close>

definition copy_go :: "'a list \<Rightarrow> 'a list \<Rightarrow> 'a list \<times> int" where
  "copy_go dst src =
     (let n = min (length dst) (length src) in (take n src @ drop n dst, int n))"

subsection \<open>The deque\<close>

definition DefaultSize :: int where
  "DefaultSize = 32"

definition ShrinkNever :: int where
  "ShrinkNever = 0"

definition ShrinkIfEmpty :: int where
  "ShrinkIfEmpty = 1"

definition ShrinkAt20Pct :: int where
  "ShrinkAt20Pct = 2"

record 'a deque =
  Minsize :: int
  Shrink :: int
  head :: int
  tail :: int
  len :: int
  dat :: "'a list"

text \<open>The composite literal \<open>Deque[T]{Minsize: m, Shrink: s}\<close>; \<open>Deque[T]{}\<close> is \<open>new_deque 0 0\<close>.\<close>

definition new_deque :: "int \<Rightarrow> int \<Rightarrow> 'a deque" where
  "new_deque m s = \<lparr>Minsize = m, Shrink = s, head = 0, tail = 0, len = 0, dat = []\<rparr>"

text \<open>The last three statements of \<open>resize\<close>: the cursors of a buffer that starts at 0.\<close>

definition resize_finish :: "'a deque \<Rightarrow> int \<Rightarrow> 'a list \<Rightarrow> 'a deque" where
  "resize_finish d sz tmp =
     d\<lparr>dat := tmp, head := 0, tail := (if len d = 0 then sz else len d) - 1\<rparr>"

definition resize :: "('a::zero) deque \<Rightarrow> int \<Rightarrow> fault + 'a deque" where
  "resize d sz =
     (case make_go sz of
        Inl e \<Rightarrow> Inl e
      | Inr tmp \<Rightarrow>
          if len d > 0 then
            (let end0 = cap (dat d);
                 end1 = (if end0 - head d > len d then head d + len d else end0)
             in case slice_go (dat d) (head d) end1 of
                  Inl e \<Rightarrow> Inl e
                | Inr s1 \<Rightarrow>
                    (let (tmp1, count) = copy_go tmp s1
                     in if len d > count then
                          (case slice_go (dat d) 0 (len d - count) of
                             Inl e \<Rightarrow> Inl e
                           | Inr s2 \<Rightarrow>
                               Inr (resize_finish d sz
                                 (take (nat count) tmp1
                                    @ fst (copy_go (drop (nat count) tmp1) s2))))
                        else Inr (resize_finish d sz tmp1)))
          else Inr (resize_finish d sz tmp))"

text \<open>
  The loop \<open>for size < d.len+add { size *= 2 }\<close> of \<open>grow\<close>, with the doubling wrapped
  as the machine does it. It does not end when the size reaches 0 below the need (from a
  size that is not positive, or by wrapping around from \<open>2 ^ 62\<close>), so it is a partial
  function: \<open>None\<close> is the loop that never ends.
\<close>

partial_function (option) grow_loop :: "int \<Rightarrow> int \<Rightarrow> int option" where
  "grow_loop sz need = (if sz < need then grow_loop (wrap64 (sz * 2)) need else Some sz)"

declare grow_loop.simps [code]

text \<open>The test \<open>d.len+add > cap(d.dat)\<close> of \<open>grow\<close>: the buffer is about to be replaced.\<close>

definition reallocates :: "'a deque \<Rightarrow> int \<Rightarrow> bool" where
  "reallocates d add \<longleftrightarrow> wrap64 (len d + add) > cap (dat d)"

definition grow :: "('a::zero) deque \<Rightarrow> int \<Rightarrow> fault + 'a deque" where
  "grow d add =
     (if reallocates d add then
        (let d1 = (if Minsize d \<le> 0 then d\<lparr>Minsize := DefaultSize\<rparr> else d);
             sz = (if cap (dat d1) = 0 then Minsize d1 else cap (dat d1))
         in case grow_loop sz (wrap64 (len d1 + add)) of
              None \<Rightarrow> Inl Diverges
            | Some sz' \<Rightarrow> resize d1 sz')
      else Inr d)"

definition shrink :: "('a::zero) deque \<Rightarrow> fault + 'a deque" where
  "shrink d =
     (if Shrink d = ShrinkNever then Inr d
      else if len d > Minsize d \<or> cap (dat d) = Minsize d then Inr d
      else if Shrink d = ShrinkAt20Pct \<and> wrap64 (len d * 5) > cap (dat d) then Inr d
      else if Shrink d = ShrinkIfEmpty \<and> len d > 0 then Inr d
      else resize d (Minsize d))"

definition push :: "'a deque \<Rightarrow> 'a \<Rightarrow> fault + 'a deque" where
  "push d v =
     (let d1 = d\<lparr>len := len d + 1, tail := tail d + 1\<rparr>;
          d2 = (if tail d1 = cap (dat d1) then d1\<lparr>tail := 0\<rparr> else d1)
      in case store_go (dat d2) (tail d2) v of
           Inl e \<Rightarrow> Inl e
         | Inr xs \<Rightarrow> Inr (d2\<lparr>dat := xs\<rparr>))"

text \<open>
  The argument \<open>v\<close> of a variadic method is a slice. Each of its slots is storage that the
  buffer of the deque does not share (\<open>Own x\<close>, holding \<open>x\<close>), or is slot \<open>i\<close> of the array
  that was the buffer when the call was made (\<open>Shared i\<close>). Reading \<open>v[i]\<close> gives what the
  slot holds at that moment; an index outside the array is not a slot of it, and is
  reported as the index fault so that no value is made up.
\<close>

datatype 'a slot = Own 'a | Shared nat

fun read_slot :: "'a list \<Rightarrow> 'a slot \<Rightarrow> fault + 'a" where
  "read_slot arr (Own x) = Inr x"
| "read_slot arr (Shared i) = index_go arr (int i)"

text \<open>
  The array behind the shared slots during the loop: the buffer as it is now, while
  \<open>grow\<close> has not replaced it (\<open>None\<close>), or the array that \<open>grow\<close> left behind
  (\<open>Some old\<close>), which nothing writes to any more.
\<close>

definition arg_array :: "'a list option \<Rightarrow> 'a deque \<Rightarrow> 'a list" where
  "arg_array old d = (case old of None \<Rightarrow> dat d | Some arr \<Rightarrow> arr)"

text \<open>The loop \<open>for _, x := range v { d.push(x) }\<close>.\<close>

fun push_slots :: "'a list option \<Rightarrow> 'a deque \<Rightarrow> 'a slot list \<Rightarrow> fault + 'a deque" where
  "push_slots old d [] = Inr d"
| "push_slots old d (s # ss) =
     (case read_slot (arg_array old d) s of
        Inl e \<Rightarrow> Inl e
      | Inr x \<Rightarrow> (case push d x of Inl e \<Rightarrow> Inl e | Inr d1 \<Rightarrow> push_slots old d1 ss))"

text \<open>\<open>d.Push(s...)\<close>: the method \<open>Push\<close> of the source, called with a slice.\<close>

definition Push_slice :: "('a::zero) deque \<Rightarrow> 'a slot list \<Rightarrow> fault + 'a deque" where
  "Push_slice d v =
     (case grow d (int (length v)) of
        Inl e \<Rightarrow> Inl e
      | Inr d1 \<Rightarrow>
          push_slots (if reallocates d (int (length v)) then Some (dat d) else None) d1 v)"

text \<open>
  \<open>d.Push(v1, ..., vn)\<close>: the same method called with listed values, for which Go
  makes a fresh slice that shares nothing with the buffer.
\<close>

definition Push :: "('a::zero) deque \<Rightarrow> 'a list \<Rightarrow> fault + 'a deque" where
  "Push d v = Push_slice d (map Own v)"

definition unshift :: "'a deque \<Rightarrow> 'a \<Rightarrow> fault + 'a deque" where
  "unshift d v =
     (let d1 = d\<lparr>len := len d + 1\<rparr>;
          d2 = (if head d1 = 0 then d1\<lparr>head := cap (dat d1)\<rparr> else d1);
          d3 = d2\<lparr>head := head d2 - 1\<rparr>
      in case store_go (dat d3) (head d3) v of
           Inl e \<Rightarrow> Inl e
         | Inr xs \<Rightarrow> Inr (d3\<lparr>dat := xs\<rparr>))"

text \<open>The loop \<open>for _, x := range v { d.unshift(x) }\<close>.\<close>

fun unshift_slots :: "'a list option \<Rightarrow> 'a deque \<Rightarrow> 'a slot list \<Rightarrow> fault + 'a deque" where
  "unshift_slots old d [] = Inr d"
| "unshift_slots old d (s # ss) =
     (case read_slot (arg_array old d) s of
        Inl e \<Rightarrow> Inl e
      | Inr x \<Rightarrow> (case unshift d x of Inl e \<Rightarrow> Inl e | Inr d1 \<Rightarrow> unshift_slots old d1 ss))"

text \<open>\<open>d.Unshift(s...)\<close>: the method \<open>Unshift\<close> of the source, called with a slice.\<close>

definition Unshift_slice :: "('a::zero) deque \<Rightarrow> 'a slot list \<Rightarrow> fault + 'a deque" where
  "Unshift_slice d v =
     (case grow d (int (length v)) of
        Inl e \<Rightarrow> Inl e
      | Inr d1 \<Rightarrow>
          unshift_slots (if reallocates d (int (length v)) then Some (dat d) else None) d1 v)"

text \<open>\<open>d.Unshift(v1, ..., vn)\<close>: called with listed values, in a fresh slice.\<close>

definition Unshift :: "('a::zero) deque \<Rightarrow> 'a list \<Rightarrow> fault + 'a deque" where
  "Unshift d v = Unshift_slice d (map Own v)"

definition Pop :: "('a::zero) deque \<Rightarrow> fault + (('a \<times> bool) \<times> 'a deque)" where
  "Pop d =
     (if len d > 0 then
        (let d1 = d\<lparr>len := len d - 1\<rparr>
         in case index_go (dat d1) (tail d1) of
              Inl e \<Rightarrow> Inl e
            | Inr v \<Rightarrow>
                (let d2 = (if tail d1 = 0 then d1\<lparr>tail := cap (dat d1)\<rparr> else d1);
                     d3 = d2\<lparr>tail := tail d2 - 1\<rparr>
                 in case shrink d3 of
                      Inl e \<Rightarrow> Inl e
                    | Inr d4 \<Rightarrow> Inr ((v, True), d4)))
      else Inr ((0, False), d))"

definition Shift :: "('a::zero) deque \<Rightarrow> fault + (('a \<times> bool) \<times> 'a deque)" where
  "Shift d =
     (if len d > 0 then
        (let d1 = d\<lparr>len := len d - 1\<rparr>
         in case index_go (dat d1) (head d1) of
              Inl e \<Rightarrow> Inl e
            | Inr v \<Rightarrow>
                (let d2 = d1\<lparr>head := head d1 + 1\<rparr>;
                     d3 = (if head d2 = cap (dat d2) then d2\<lparr>head := 0\<rparr> else d2)
                 in case shrink d3 of
                      Inl e \<Rightarrow> Inl e
                    | Inr d4 \<Rightarrow> Inr ((v, True), d4)))
      else Inr ((0, False), d))"

definition Peek :: "('a::zero) deque \<Rightarrow> fault + (('a \<times> bool) \<times> 'a deque)" where
  "Peek d =
     (if len d > 0 then
        (case index_go (dat d) (tail d) of
           Inl e \<Rightarrow> Inl e
         | Inr v \<Rightarrow> Inr ((v, True), d))
      else Inr ((0, False), d))"

definition PeekShift :: "('a::zero) deque \<Rightarrow> fault + (('a \<times> bool) \<times> 'a deque)" where
  "PeekShift d =
     (if len d > 0 then
        (case index_go (dat d) (head d) of
           Inl e \<Rightarrow> Inl e
         | Inr v \<Rightarrow> Inr ((v, True), d))
      else Inr ((0, False), d))"

definition Len :: "'a deque \<Rightarrow> int" where
  "Len d = len d"

definition Cap :: "'a deque \<Rightarrow> int" where
  "Cap d = cap (dat d)"

definition ToSlice :: "('a::zero) deque \<Rightarrow> fault + ('a list \<times> 'a deque)" where
  "ToSlice d =
     (if len d = 0 then Inr ([], d)
      else case (if head d \<noteq> 0 then resize d (cap (dat d)) else Inr d) of
             Inl e \<Rightarrow> Inl e
           | Inr d1 \<Rightarrow>
               (case slice_go (dat d1) 0 (len d1) of
                  Inl e \<Rightarrow> Inl e
                | Inr xs \<Rightarrow> Inr (xs, d1)))"

text \<open>
  \<open>WrapSlice(dat)\<close>. The argument slice is given by its \<open>len(dat)\<close> visible elements
  \<open>xs\<close> and by the elements \<open>spare\<close> of its array between its length and its capacity,
  so that \<open>dat[:cap(dat)]\<close> is \<open>xs @ spare\<close>.
\<close>

definition WrapSlice :: "'a deque \<Rightarrow> 'a list \<Rightarrow> 'a list \<Rightarrow> 'a deque" where
  "WrapSlice d xs spare =
     (let d1 = d\<lparr>dat := xs @ spare\<rparr>;
          d2 = d1\<lparr>len := int (length xs)\<rparr>;
          d3 = d2\<lparr>head := 0\<rparr>;
          d4 = d3\<lparr>tail := len d3\<rparr>;
          d5 = (if tail d4 = 0 then d4\<lparr>tail := cap (dat d4)\<rparr> else d4)
      in d5\<lparr>tail := tail d5 - 1\<rparr>)"

subsection \<open>Running the methods as the tests do\<close>

text \<open>
  The helper \<open>check\<close> of the tests calls one removing method several times and compares
  what it returns; \<open>repeat_op f n\<close> calls \<open>f\<close> \<open>n\<close> times and collects the results.
\<close>

fun repeat_op :: "('a deque \<Rightarrow> fault + (('a \<times> bool) \<times> 'a deque)) \<Rightarrow> nat \<Rightarrow> 'a deque
    \<Rightarrow> fault + (('a \<times> bool) list \<times> 'a deque)" where
  "repeat_op f 0 d = Inr ([], d)"
| "repeat_op f (Suc n) d =
     (case f d of
        Inl e \<Rightarrow> Inl e
      | Inr (r, d1) \<Rightarrow>
          (case repeat_op f n d1 of Inl e \<Rightarrow> Inl e | Inr (rs, d2) \<Rightarrow> Inr (r # rs, d2)))"

text \<open>
  The spec writes of \<open>PushBack\<close> and \<open>PushFront\<close> of one value at a time;
  \<open>one_at_a_time f d vs\<close> calls the variadic method \<open>f\<close> once for each value and
  records \<open>Cap()\<close> after each call, as \<open>checkcap\<close> does in the tests.
\<close>

fun one_at_a_time :: "('a deque \<Rightarrow> 'a list \<Rightarrow> fault + 'a deque) \<Rightarrow> 'a deque \<Rightarrow> 'a list
    \<Rightarrow> fault + (int list \<times> 'a deque)" where
  "one_at_a_time f d [] = Inr ([], d)"
| "one_at_a_time f d (x # xs) =
     (case f d [x] of
        Inl e \<Rightarrow> Inl e
      | Inr d1 \<Rightarrow>
          (case one_at_a_time f d1 xs of
             Inl e \<Rightarrow> Inl e
           | Inr (cs, d2) \<Rightarrow> Inr (Cap d1 # cs, d2)))"

text \<open>
  The slice \<open>d.dat[lo:hi]\<close> as an argument that shares the buffer; \<open>ToSlice\<close> returns
  \<open>d.dat[:d.len]\<close>, which is \<open>buffer_view 0 n\<close> for a deque of length \<open>n\<close>.
\<close>

definition buffer_view :: "nat \<Rightarrow> nat \<Rightarrow> 'a slot list" where
  "buffer_view lo hi = map Shared [lo..<hi]"

text \<open>
  A sequence of calls of the public methods, run from left to right; \<open>Push\<close> and
  \<open>Unshift\<close> are called with listed values.
\<close>

datatype 'a deque_op =
    OpPush "'a list"
  | OpUnshift "'a list"
  | OpPop
  | OpShift
  | OpPeek
  | OpPeekShift
  | OpLen
  | OpCap
  | OpToSlice
  | OpWrapSlice "'a list" "'a list"

fun apply_op :: "('a::zero) deque \<Rightarrow> 'a deque_op \<Rightarrow> fault + 'a deque" where
  "apply_op d (OpPush vs) = Push d vs"
| "apply_op d (OpUnshift vs) = Unshift d vs"
| "apply_op d OpPop = (case Pop d of Inl e \<Rightarrow> Inl e | Inr (r, d1) \<Rightarrow> Inr d1)"
| "apply_op d OpShift = (case Shift d of Inl e \<Rightarrow> Inl e | Inr (r, d1) \<Rightarrow> Inr d1)"
| "apply_op d OpPeek = (case Peek d of Inl e \<Rightarrow> Inl e | Inr (r, d1) \<Rightarrow> Inr d1)"
| "apply_op d OpPeekShift = (case PeekShift d of Inl e \<Rightarrow> Inl e | Inr (r, d1) \<Rightarrow> Inr d1)"
| "apply_op d OpLen = Inr d"
| "apply_op d OpCap = Inr d"
| "apply_op d OpToSlice = (case ToSlice d of Inl e \<Rightarrow> Inl e | Inr (xs, d1) \<Rightarrow> Inr d1)"
| "apply_op d (OpWrapSlice xs spare) = Inr (WrapSlice d xs spare)"

fun exec :: "('a::zero) deque \<Rightarrow> 'a deque_op list \<Rightarrow> fault + 'a deque" where
  "exec d [] = Inr d"
| "exec d (c # cs) = (case apply_op d c of Inl e \<Rightarrow> Inl e | Inr d1 \<Rightarrow> exec d1 cs)"

fun is_removal :: "'a deque_op \<Rightarrow> bool" where
  "is_removal OpPop = True"
| "is_removal OpShift = True"
| "is_removal _ = False"

text \<open>
  The number of values that a sequence of calls hands to the deque (pushed, or visible in
  an adopted buffer): a bound on the length the deque can reach.
\<close>

fun volume :: "'a deque_op list \<Rightarrow> int" where
  "volume [] = 0"
| "volume (OpPush vs # cs) = int (length vs) + volume cs"
| "volume (OpUnshift vs # cs) = int (length vs) + volume cs"
| "volume (OpWrapSlice xs spare # cs) = int (length xs) + volume cs"
| "volume (c # cs) = volume cs"

text \<open>The capacities of the buffers that a sequence of calls hands to \<open>WrapSlice\<close>.\<close>

fun adopted :: "'a deque_op list \<Rightarrow> int list" where
  "adopted [] = []"
| "adopted (OpWrapSlice xs spare # cs) = cap (xs @ spare) # adopted cs"
| "adopted (c # cs) = adopted cs"

subsection \<open>What the deque holds, and its invariant\<close>

text \<open>
  The logical content: \<open>n\<close> slots read from index \<open>h\<close> on, wrapping at the end of the
  buffer. The deque holds the walk of \<open>len\<close> slots from \<open>head\<close>.
\<close>

definition ring_walk :: "'a list \<Rightarrow> nat \<Rightarrow> nat \<Rightarrow> 'a list" where
  "ring_walk xs h n = map (\<lambda>i. xs ! ((h + i) mod length xs)) [0..<n]"

definition contents :: "'a deque \<Rightarrow> 'a list" where
  "contents d = ring_walk (dat d) (nat (head d)) (nat (len d))"

text \<open>
  The invariant of the representation: the length fits the buffer, and in an allocated
  buffer \<open>head\<close> is an index and \<open>tail\<close> is the slot before \<open>head + len\<close>, modulo the
  capacity; this also holds of an empty deque, where \<open>push\<close> relies on it.
\<close>

definition invar :: "'a deque \<Rightarrow> bool" where
  "invar d \<longleftrightarrow>
     0 \<le> len d \<and> len d \<le> cap (dat d) \<and>
     (dat d \<noteq> [] \<longrightarrow>
        0 \<le> head d \<and> head d < cap (dat d) \<and> tail d = (head d + len d - 1) mod cap (dat d))"

text \<open>
  \<open>doubled_from b c\<close>: the capacity \<open>c\<close> is the base \<open>b\<close> doubled zero or more times;
  a power of two is 1 doubled.
\<close>

fun doubled_from :: "int \<Rightarrow> int \<Rightarrow> bool" where
  "doubled_from b c =
     (if c = b then True
      else if c \<le> 0 \<or> c mod 2 \<noteq> 0 then False
      else doubled_from b (c div 2))"

declare doubled_from.simps [simp del]

definition is_pow2 :: "int \<Rightarrow> bool" where
  "is_pow2 c = doubled_from 1 c"

text \<open>The size that \<open>grow\<close> starts from when \<open>Minsize\<close> is \<open>m\<close> and nothing is allocated.\<close>

definition effective_minsize :: "int \<Rightarrow> int" where
  "effective_minsize m = (if m \<le> 0 then DefaultSize else m)"

text \<open>
  The capacity invariant the code keeps: nothing allocated, or the effective minimum
  size doubled, or the capacity of an adopted buffer doubled.
\<close>

definition cap_from_base :: "int \<Rightarrow> int list \<Rightarrow> int \<Rightarrow> bool" where
  "cap_from_base m bs c \<longleftrightarrow>
     c = 0 \<or> doubled_from (effective_minsize m) c \<or> list_ex (\<lambda>b. doubled_from b c) bs"

text \<open>
  What every sequence of calls keeps, for a deque created with \<open>Minsize = m\<close> that has
  adopted buffers of the capacities \<open>bs\<close>: \<open>grow\<close> may have replaced a \<open>Minsize\<close> that
  is not positive by the default.
\<close>

definition cap_inv :: "int \<Rightarrow> int list \<Rightarrow> 'a deque \<Rightarrow> bool" where
  "cap_inv m bs d \<longleftrightarrow>
     invar d \<and> (Minsize d = m \<or> Minsize d = effective_minsize m) \<and> cap_from_base m bs (Cap d)"

text \<open>The capacity invariant in the words of the spec: a power of two, or exactly the minimum size.\<close>

definition pow2_or_minsize :: "'a deque \<Rightarrow> bool" where
  "pow2_or_minsize d \<longleftrightarrow> is_pow2 (Cap d) \<or> Cap d = Minsize d"

section \<open>Auxiliary facts\<close>

lemmas go_defs = cap_def make_go_def index_go_def store_go_def slice_go_def copy_go_def
  wrap64_def DefaultSize_def ShrinkNever_def ShrinkIfEmpty_def ShrinkAt20Pct_def new_deque_def
  resize_finish_def resize_def reallocates_def grow_def shrink_def push_def unshift_def
  arg_array_def Push_slice_def Unshift_slice_def Push_def Unshift_def
  Pop_def Shift_def Peek_def PeekShift_def Len_def Cap_def ToSlice_def WrapSlice_def

lemma length_ring [simp]: "length (ring_walk xs h n) = n"
  by (simp add: ring_walk_def)

lemma ring_0 [simp]: "ring_walk xs h 0 = []"
  by (simp add: ring_walk_def)

lemma ring_Suc: "ring_walk xs h (Suc n) = ring_walk xs h n @ [xs ! ((h + n) mod length xs)]"
  by (simp add: ring_walk_def)

lemma ring_split:
  assumes "h < length xs" and "n \<le> length xs"
  shows "ring_walk xs h n = take n (drop h xs) @ take (n - (length xs - h)) xs"
proof (rule nth_equalityI)
  show "length (ring_walk xs h n) = length (take n (drop h xs) @ take (n - (length xs - h)) xs)"
    using assms by auto
next
  fix i assume "i < length (ring_walk xs h n)"
  then have i: "i < n" by simp
  show "ring_walk xs h n ! i = (take n (drop h xs) @ take (n - (length xs - h)) xs) ! i"
  proof (cases "i < length xs - h")
    case True
    then have "(h + i) mod length xs = h + i" by simp
    with True i assms show ?thesis
      by (simp add: ring_walk_def nth_append)
  next
    case False
    then have "(h + i) mod length xs = h + i - length xs"
      using i assms by (simp add: le_mod_geq)
    moreover have "h + i - length xs = i - (length xs - h)"
      using False assms by simp
    ultimately show ?thesis
      using False i assms by (simp add: ring_walk_def nth_append min_def)
  qed
qed

lemma ring_index_distinct:
  assumes "i < n" and "n < c"
  shows "(h + n) mod c \<noteq> (h + i) mod (c::nat)"
proof
  assume "(h + n) mod c = (h + i) mod c"
  then have "c dvd (h + n) - (h + i)"
    using assms by (simp add: mod_eq_dvd_iff_nat)
  then have "c dvd n - i" by simp
  moreover have "0 < n - i" and "n - i < c" using assms by simp_all
  ultimately show False by (simp add: nat_dvd_not_less)
qed

lemma ring_store_outside:
  assumes "\<And>i. i < n \<Longrightarrow> (h + i) mod length xs \<noteq> p"
  shows "ring_walk (xs[p := v]) h n = ring_walk xs h n"
  unfolding ring_walk_def
proof (rule map_cong [OF refl])
  fix i assume "i \<in> set [0..<n]"
  then have "(h + i) mod length xs \<noteq> p" using assms by simp
  then have "p \<noteq> (h + i) mod length xs" by (rule not_sym)
  then show "xs[p := v] ! ((h + i) mod length (xs[p := v])) = xs ! ((h + i) mod length xs)"
    by simp
qed

lemma ring_store_end:
  assumes "n < length xs"
  shows "ring_walk (xs[(h + n) mod length xs := v]) h (Suc n) = ring_walk xs h n @ [v]"
proof -
  have neq: "(h + i) mod length xs \<noteq> (h + n) mod length xs" if "i < n" for i
    using that assms ring_index_distinct [of i n "length xs" h] by simp
  have "0 < length xs" using assms by arith
  then have "(h + n) mod length xs < length xs" by (rule mod_less_divisor)
  then show ?thesis
    using neq by (simp add: ring_Suc ring_store_outside)
qed

lemma ring_shift:
  assumes "0 < n" and "h < length xs"
  shows "ring_walk xs h n = xs ! h # ring_walk xs (Suc h mod length xs) (n - 1)"
proof (rule nth_equalityI)
  show "length (ring_walk xs h n) = length (xs ! h # ring_walk xs (Suc h mod length xs) (n - 1))"
    using assms by simp
next
  fix i assume "i < length (ring_walk xs h n)"
  then have i: "i < n" by simp
  show "ring_walk xs h n ! i = (xs ! h # ring_walk xs (Suc h mod length xs) (n - 1)) ! i"
  proof (cases i)
    case 0
    with i assms show ?thesis by (simp add: ring_walk_def)
  next
    case (Suc j)
    have "(Suc h mod length xs + j) mod length xs = (h + Suc j) mod length xs"
      by (metis add_Suc add_Suc_right mod_add_left_eq)
    moreover have "j < n - 1" using Suc i by simp
    ultimately show ?thesis using Suc i by (simp add: ring_walk_def)
  qed
qed

lemma ring_store_front:
  assumes "n < length xs" and "h < length xs" and "Suc k mod length xs = h" and "k < length xs"
  shows "ring_walk (xs[k := v]) k (Suc n) = v # ring_walk xs h n"
proof -
  have neq: "(h + i) mod length xs \<noteq> k" if "i < n" for i
  proof
    assume e: "(h + i) mod length xs = k"
    have "(Suc k + i) mod length xs = (h + i) mod length xs"
      using assms(3) by (metis mod_add_left_eq)
    then have "(k + Suc i) mod length xs = (k + 0) mod length xs" using e assms(4) by simp
    moreover have "0 < Suc i" and "Suc i < length xs" using that assms(1) by simp_all
    ultimately show False using ring_index_distinct [of 0 "Suc i" "length xs" k] by simp
  qed
  have "ring_walk (xs[k := v]) k (Suc n) = (xs[k := v]) ! k # ring_walk (xs[k := v]) (Suc k mod length xs) n"
    using ring_shift [of "Suc n" k "xs[k := v]"] assms by simp
  also have "ring_walk (xs[k := v]) (Suc k mod length xs) n = ring_walk xs h n"
    using neq assms by (simp add: ring_store_outside)
  finally show ?thesis using assms by simp
qed

lemma copy_go_fits:
  "length src \<le> length dst \<Longrightarrow> copy_go dst src = (src @ drop (length src) dst, int (length src))"
  by (simp add: copy_go_def min_def Let_def)

lemma resize_empty:
  assumes "len d = 0" and "0 \<le> sz"
  shows "resize d sz = Inr (d\<lparr>dat := replicate (nat sz) 0, head := 0, tail := sz - 1\<rparr>)"
  using assms by (simp add: resize_def make_go_def resize_finish_def)

lemma resize_nonempty:
  fixes d :: "('a::zero) deque"
  assumes "dat d = xs" and "head d = int h" and "len d = int n" and "sz = int k"
    and "0 < n" and "n \<le> length xs" and "h < length xs" and "n \<le> k"
  shows "resize d sz =
     Inr (d\<lparr>dat := ring_walk xs h n @ replicate (k - n) 0, head := 0, tail := int n - 1\<rparr>)"
proof -
  define s1 where "s1 = take n (drop h xs)"
  define s2 where "s2 = take (n - (length xs - h)) xs"
  define tmp :: "'a list" where "tmp = replicate k 0"
  have l1: "length s1 = min n (length xs - h)" by (simp add: s1_def)
  have l2: "length s2 = n - (length xs - h)" using assms by (simp add: s2_def)
  have mk: "make_go sz = Inr tmp" using assms by (simp add: make_go_def tmp_def)
  have sl1: "int n < cap xs - int h \<Longrightarrow> slice_go xs (int h) (int h + int n) = Inr s1"
    "\<not> int n < cap xs - int h \<Longrightarrow> slice_go xs (int h) (cap xs) = Inr s1"
    using assms by (auto simp: slice_go_def cap_def s1_def)
  have cp1: "copy_go tmp s1 = (s1 @ drop (length s1) tmp, int (length s1))"
    using assms by (intro copy_go_fits) (simp add: l1 tmp_def)
  have r: "ring_walk xs h n = s1 @ s2"
    using assms by (simp add: ring_split s1_def s2_def)
  show ?thesis
  proof (cases "n > length s1")
    case True
    then have nh: "length xs - h < n" and ls: "length s1 = length xs - h" by (auto simp: l1)
    have e: "int n - int (length s1) = int (n - (length xs - h))"
      using nh ls by simp
    have sl2: "slice_go xs 0 (int n - int (length s1)) = Inr s2"
      unfolding e using assms by (simp add: slice_go_def cap_def s2_def)
    have cp2: "copy_go (drop (length s1) tmp) s2
        = (s2 @ drop (length s2) (drop (length s1) tmp), int (length s2))"
      using assms nh by (intro copy_go_fits) (simp add: l1 l2 tmp_def)
    have "drop (length s2) (drop (length s1) tmp) = replicate (k - n) 0"
      using assms nh by (simp add: tmp_def l1 l2)
    then show ?thesis
      using True assms mk sl1 cp1 sl2 cp2 r
      by (simp add: resize_def resize_finish_def Let_def)
  next
    case False
    then have "s2 = []" and "length s1 = n" using assms by (auto simp: l1 s2_def)
    moreover have "drop (length s1) tmp = replicate (k - n) 0"
      using \<open>length s1 = n\<close> by (simp add: tmp_def)
    ultimately show ?thesis
      using False assms mk sl1 cp1 r
      by (simp add: resize_def resize_finish_def Let_def)
  qed
qed

lemma wrap_inc:
  fixes t c :: int
  assumes "0 \<le> t" and "t < c"
  shows "(if t + 1 = c then 0 else t + 1) = (t + 1) mod c"
  using assms by simp

lemma wrap_dec:
  fixes t c :: int
  assumes "0 \<le> t" and "t < c"
  shows "(if t = 0 then c else t) - 1 = (t - 1) mod c"
proof (cases "t = 0")
  case True
  have "(- 1) mod c = c - 1" using assms True by (simp add: zmod_minus1)
  with True show ?thesis by simp
next
  case False
  with assms show ?thesis by simp
qed

lemma nat_ring_index:
  assumes "0 \<le> a" "0 < c"
  shows "nat (a mod int c) = nat a mod c"
  using assms by (simp add: nat_mod_distrib)

lemma invar_nonemptyD:
  assumes "invar d" and "dat d \<noteq> []"
  obtains h n where "head d = int h" and "len d = int n" and "h < length (dat d)"
    and "n \<le> length (dat d)" and "tail d = (int h + int n - 1) mod int (length (dat d))"
    and "contents d = ring_walk (dat d) h n"
proof -
  from assms have "0 \<le> head d" "0 \<le> len d" by (auto simp: invar_def)
  then obtain h n where hn: "head d = int h" "len d = int n"
    by (metis nat_0_le)
  with assms have "h < length (dat d)" "n \<le> length (dat d)"
    "tail d = (int h + int n - 1) mod int (length (dat d))"
    by (auto simp: invar_def cap_def)
  moreover have "contents d = ring_walk (dat d) h n" using hn by (simp add: contents_def)
  ultimately show ?thesis using that hn by blast
qed

lemma invar_emptyD:
  assumes "invar d" and "dat d = []"
  shows "len d = 0" and "contents d = []"
  using assms by (auto simp: invar_def cap_def contents_def)

lemma invar_tail_range:
  assumes "invar d" and "dat d \<noteq> []"
  shows "0 \<le> tail d" and "tail d < cap (dat d)"
  using assms by (auto simp: invar_def cap_def)

lemma length_contents: "0 \<le> len d \<Longrightarrow> int (length (contents d)) = len d"
  by (simp add: contents_def)

lemma push_alt:
  "push d v =
     (case store_go (dat d) (if tail d + 1 = cap (dat d) then 0 else tail d + 1) v of
        Inl e \<Rightarrow> Inl e
      | Inr xs \<Rightarrow>
          Inr (d\<lparr>len := len d + 1,
                tail := (if tail d + 1 = cap (dat d) then 0 else tail d + 1), dat := xs\<rparr>))"
  by (simp add: push_def Let_def split: sum.splits)

lemma push_invar:
  assumes "invar d" and "len d < cap (dat d)"
  shows "\<exists>d'. push d v = Inr d' \<and> invar d' \<and> contents d' = contents d @ [v]
           \<and> length (dat d') = length (dat d) \<and> len d' = len d + 1
           \<and> Minsize d' = Minsize d \<and> Shrink d' = Shrink d"
proof -
  from assms have ne: "dat d \<noteq> []" by (auto simp: invar_def cap_def)
  from assms(1) ne obtain h n where hn: "head d = int h" "len d = int n" "h < length (dat d)"
    "n \<le> length (dat d)" "tail d = (int h + int n - 1) mod int (length (dat d))"
    "contents d = ring_walk (dat d) h n"
    by (rule invar_nonemptyD)
  define c where "c = length (dat d)"
  have c: "0 < c" "n < c" using assms hn ne by (auto simp: c_def cap_def)
  define t where "t = (if tail d + 1 = cap (dat d) then 0 else tail d + 1)"
  have "t = (tail d + 1) mod int c"
    using invar_tail_range [OF assms(1) ne] wrap_inc [of "tail d" "int c"]
    by (simp add: t_def c_def cap_def)
  also have "\<dots> = (int h + int n) mod int c"
    using hn(5) by (simp add: c_def mod_simps)
  also have "\<dots> = int ((h + n) mod c)" by (simp add: zmod_int)
  finally have t: "t = int ((h + n) mod c)" .
  have tc: "(h + n) mod c < c" using c by simp
  define d' where "d' = d\<lparr>len := len d + 1, tail := t, dat := (dat d)[(h + n) mod c := v]\<rparr>"
  have p: "push d v = Inr d'"
    unfolding push_alt t_def [symmetric]
    using t tc by (simp add: store_go_def d'_def cap_def c_def)
  have "ring_walk ((dat d)[(h + n) mod c := v]) h (Suc n) = ring_walk (dat d) h n @ [v]"
    using ring_store_end [of n "dat d" h v] c by (simp add: c_def)
  then have ct: "contents d' = contents d @ [v]"
    using hn by (simp add: contents_def d'_def nat_add_distrib)
  have "invar d'"
    using hn c t by (simp add: invar_def d'_def cap_def c_def [symmetric] zmod_int)
  with p ct show ?thesis by (auto simp: d'_def)
qed

lemma unshift_alt:
  "unshift d v =
     (case store_go (dat d) ((if head d = 0 then cap (dat d) else head d) - 1) v of
        Inl e \<Rightarrow> Inl e
      | Inr xs \<Rightarrow>
          Inr (d\<lparr>len := len d + 1,
                head := (if head d = 0 then cap (dat d) else head d) - 1, dat := xs\<rparr>))"
  by (simp add: unshift_def Let_def split: sum.splits)

lemma unshift_invar:
  assumes "invar d" and "len d < cap (dat d)"
  shows "\<exists>d'. unshift d v = Inr d' \<and> invar d' \<and> contents d' = v # contents d
           \<and> length (dat d') = length (dat d) \<and> len d' = len d + 1
           \<and> Minsize d' = Minsize d \<and> Shrink d' = Shrink d"
proof -
  from assms have ne: "dat d \<noteq> []" by (auto simp: invar_def cap_def)
  from assms(1) ne obtain h n where hn: "head d = int h" "len d = int n" "h < length (dat d)"
    "n \<le> length (dat d)" "tail d = (int h + int n - 1) mod int (length (dat d))"
    "contents d = ring_walk (dat d) h n"
    by (rule invar_nonemptyD)
  define c where "c = length (dat d)"
  have c: "0 < c" "n < c" "h < c" using assms hn ne by (auto simp: c_def cap_def)
  define k where "k = (if h = 0 then c - 1 else h - 1)"
  define t where "t = (if head d = 0 then cap (dat d) else head d) - 1"
  have t: "t = int k" using hn c by (auto simp: t_def k_def cap_def c_def)
  have k: "k < c" "Suc k mod c = h" using c by (auto simp: k_def)
  have "(if int h = 0 then int (length (dat d)) else int h) - 1
      = (int h - 1) mod int (length (dat d))"
    using hn(3) by (intro wrap_dec) simp_all
  then have "t = (int h - 1) mod int c"
    unfolding t_def c_def cap_def hn(1) .
  with t have tm: "int k = (int h - 1) mod int c" by simp
  define d' where "d' = d\<lparr>len := len d + 1, head := t, dat := (dat d)[k := v]\<rparr>"
  have p: "unshift d v = Inr d'"
    unfolding unshift_alt t_def [symmetric]
    using t k by (simp add: store_go_def d'_def cap_def c_def)
  have "ring_walk ((dat d)[k := v]) k (Suc n) = v # ring_walk (dat d) h n"
    using ring_store_front [of n "dat d" h k v] c k by (simp add: c_def)
  then have ct: "contents d' = v # contents d"
    using hn t by (simp add: contents_def d'_def nat_add_distrib)
  have "(int k + (int n + 1) - 1) mod int c = (int h + int n - 1) mod int c"
    unfolding tm by (simp add: mod_simps algebra_simps)
  then have "invar d'"
    using hn c t k by (simp add: invar_def d'_def cap_def c_def [symmetric])
  with p ct show ?thesis by (auto simp: d'_def)
qed

lemma push_slots_own:
  assumes "invar d" and "len d + int (length vs) \<le> cap (dat d)"
  shows "\<exists>d'. push_slots old d (map Own vs) = Inr d' \<and> invar d' \<and> contents d' = contents d @ vs
           \<and> length (dat d') = length (dat d) \<and> len d' = len d + int (length vs)
           \<and> Minsize d' = Minsize d \<and> Shrink d' = Shrink d"
  using assms
proof (induction vs arbitrary: d)
  case Nil
  then show ?case by simp
next
  case (Cons v vs)
  then have "len d < cap (dat d)" by simp
  with Cons.prems(1) obtain d1 where d1: "push d v = Inr d1" "invar d1"
    "contents d1 = contents d @ [v]" "length (dat d1) = length (dat d)" "len d1 = len d + 1"
    "Minsize d1 = Minsize d" "Shrink d1 = Shrink d"
    using push_invar [of d v] by blast
  have "len d1 + int (length vs) \<le> cap (dat d1)"
    using Cons.prems(2) d1 by (simp add: cap_def)
  from Cons.IH [OF d1(2) this] d1 show ?case by auto
qed

lemma unshift_slots_own:
  assumes "invar d" and "len d + int (length vs) \<le> cap (dat d)"
  shows "\<exists>d'. unshift_slots old d (map Own vs) = Inr d' \<and> invar d' \<and> contents d' = rev vs @ contents d
           \<and> length (dat d') = length (dat d) \<and> len d' = len d + int (length vs)
           \<and> Minsize d' = Minsize d \<and> Shrink d' = Shrink d"
  using assms
proof (induction vs arbitrary: d)
  case Nil
  then show ?case by simp
next
  case (Cons v vs)
  then have "len d < cap (dat d)" by simp
  with Cons.prems(1) obtain d1 where d1: "unshift d v = Inr d1" "invar d1"
    "contents d1 = v # contents d" "length (dat d1) = length (dat d)" "len d1 = len d + 1"
    "Minsize d1 = Minsize d" "Shrink d1 = Shrink d"
    using unshift_invar [of d v] by blast
  have "len d1 + int (length vs) \<le> cap (dat d1)"
    using Cons.prems(2) d1 by (simp add: cap_def)
  from Cons.IH [OF d1(2) this] d1 show ?case by auto
qed

lemma ring_prefix:
  assumes "n \<le> length ys"
  shows "ring_walk (ys @ zs) 0 n = take n ys"
proof (cases "n = 0")
  case True
  then show ?thesis by simp
next
  case False
  with assms have "0 < length (ys @ zs)" and "n \<le> length (ys @ zs)" by auto
  then have "ring_walk (ys @ zs) 0 n = take n (ys @ zs) @ take (n - length (ys @ zs)) (ys @ zs)"
    using ring_split [of 0 "ys @ zs" n] by simp
  with assms show ?thesis by simp
qed

lemma resize_invar:
  fixes d :: "('a::zero) deque"
  assumes "invar d" and "len d \<le> sz"
  shows "\<exists>d'. resize d sz = Inr d' \<and> invar d' \<and> contents d' = contents d
           \<and> dat d' = contents d @ replicate (nat (sz - len d)) 0 \<and> cap (dat d') = sz
           \<and> len d' = len d \<and> head d' = 0
           \<and> Minsize d' = Minsize d \<and> Shrink d' = Shrink d"
proof (cases "len d = 0")
  case True
  with assms have sz: "0 \<le> sz" by simp
  define d' where "d' = d\<lparr>dat := replicate (nat sz) (0::'a), head := 0, tail := sz - 1\<rparr>"
  have r: "resize d sz = Inr d'"
    using True sz by (simp add: resize_empty d'_def)
  have "invar d'"
    using True sz by (auto simp: invar_def d'_def cap_def zmod_minus1)
  moreover have "contents d' = []" "contents d = []"
    using True by (simp_all add: contents_def d'_def)
  ultimately show ?thesis
    using r True sz by (auto simp: d'_def cap_def)
next
  case False
  with assms have ne: "dat d \<noteq> []" by (auto simp: invar_def cap_def)
  from assms(1) ne obtain h n where hn: "head d = int h" "len d = int n" "h < length (dat d)"
    "n \<le> length (dat d)" "tail d = (int h + int n - 1) mod int (length (dat d))"
    "contents d = ring_walk (dat d) h n"
    by (rule invar_nonemptyD)
  from False hn have n: "0 < n" by simp
  from assms(2) hn obtain k where k: "sz = int k" "n \<le> k"
    by (metis nat_0_le nat_int nat_le_iff of_nat_0_le_iff order_trans)
  define d' where
    "d' = d\<lparr>dat := ring_walk (dat d) h n @ replicate (k - n) (0::'a), head := 0, tail := int n - 1\<rparr>"
  have r: "resize d sz = Inr d'"
    unfolding d'_def using hn n k by (intro resize_nonempty) simp_all
  have "(int n - 1) mod int k = int n - 1" using n k by simp
  then have "invar d'"
    using hn n k by (simp add: invar_def d'_def cap_def)
  moreover have "contents d' = contents d"
    using hn by (simp add: contents_def d'_def ring_prefix)
  moreover have "nat (sz - len d) = k - n" using hn k by simp
  ultimately show ?thesis
    using r hn k by (auto simp: d'_def cap_def)
qed

lemma wrap64_id: "- (2 ^ 63) \<le> x \<Longrightarrow> x < 2 ^ 63 \<Longrightarrow> wrap64 x = x"
  by (simp add: wrap64_def)

lemma grow_loop_total:
  assumes "0 < sz" and "need \<le> 2 ^ 62"
  shows "\<exists>k. grow_loop sz need = Some (sz * 2 ^ k) \<and> need \<le> sz * 2 ^ k"
  using assms(1)
proof (induction "nat (need - sz)" arbitrary: sz rule: less_induct)
  case less
  show ?case
  proof (cases "sz < need")
    case True
    with less.prems have "nat (need - sz * 2) < nat (need - sz)" by simp
    moreover have "0 < sz * 2" using less.prems by simp
    ultimately obtain k where k: "grow_loop (sz * 2) need = Some (sz * 2 * 2 ^ k)"
      "need \<le> sz * 2 * 2 ^ k"
      using less.hyps by blast
    have "sz * 2 < 2 ^ 63" using True assms(2) by simp
    then have "wrap64 (sz * 2) = sz * 2"
      using less.prems by (intro wrap64_id) simp_all
    then have "grow_loop sz need = grow_loop (sz * 2) need"
      using True by (subst grow_loop.simps) simp
    with k have "grow_loop sz need = Some (sz * 2 ^ Suc k) \<and> need \<le> sz * 2 ^ Suc k"
      by (simp add: mult.assoc)
    then show ?thesis by blast
  next
    case False
    then have "grow_loop sz need = Some (sz * 2 ^ 0) \<and> need \<le> sz * 2 ^ 0"
      by (subst grow_loop.simps) simp
    then show ?thesis by blast
  qed
qed

lemma grow_invar:
  fixes d :: "('a::zero) deque"
  assumes "invar d" and "0 \<le> add" and "len d + add \<le> 2 ^ 62"
  shows "\<exists>d'. grow d add = Inr d' \<and> invar d' \<and> contents d' = contents d
           \<and> len d' = len d \<and> Shrink d' = Shrink d \<and> len d + add \<le> cap (dat d')
           \<and> (d' = d \<or>
                Minsize d' = (if Minsize d \<le> 0 then DefaultSize else Minsize d) \<and>
                (\<exists>k. cap (dat d') = (if dat d = [] then Minsize d' else cap (dat d)) * 2 ^ k))"
proof (cases "len d + add > cap (dat d)")
  case False
  have w: "wrap64 (len d + add) = len d + add"
    using assms by (intro wrap64_id) (simp_all add: invar_def)
  from False have "grow d add = Inr d" by (simp add: grow_def reallocates_def w)
  with False assms show ?thesis by auto
next
  case True
  have w: "wrap64 (len d + add) = len d + add"
    using assms by (intro wrap64_id) (simp_all add: invar_def)
  define d1 where "d1 = (if Minsize d \<le> 0 then d\<lparr>Minsize := DefaultSize\<rparr> else d)"
  define sz where "sz = (if cap (dat d1) = 0 then Minsize d1 else cap (dat d1))"
  have d1: "invar d1" "contents d1 = contents d" "len d1 = len d" "Shrink d1 = Shrink d"
    "dat d1 = dat d" "Minsize d1 = (if Minsize d \<le> 0 then DefaultSize else Minsize d)"
    using assms by (auto simp: d1_def invar_def contents_def)
  have "0 < Minsize d1" using d1(6) by (simp add: DefaultSize_def)
  moreover have "0 \<le> cap (dat d1)" by (simp add: cap_def)
  ultimately have "0 < sz" by (simp add: sz_def)
  moreover have "len d1 + add \<le> 2 ^ 62" using assms(3) d1(3) by simp
  ultimately obtain k where k: "grow_loop sz (len d1 + add) = Some (sz * 2 ^ k)"
    "len d1 + add \<le> sz * 2 ^ k"
    using grow_loop_total by blast
  have r: "reallocates d add" using True by (simp add: reallocates_def w)
  have "wrap64 (len d1 + add) = len d1 + add" using w d1(3) by simp
  then have g: "grow d add = resize d1 (sz * 2 ^ k)"
    using r k(1) unfolding grow_def d1_def [symmetric] Let_def sz_def [symmetric] by simp
  have "len d1 \<le> sz * 2 ^ k" using k(2) assms(2) by simp
  from resize_invar [OF d1(1) this] obtain d' where d': "resize d1 (sz * 2 ^ k) = Inr d'"
    "invar d'" "contents d' = contents d1" "cap (dat d') = sz * 2 ^ k" "len d' = len d1"
    "Minsize d' = Minsize d1" "Shrink d' = Shrink d1"
    by blast
  have "sz = (if dat d = [] then Minsize d' else cap (dat d))"
    using d1 d' by (simp add: sz_def cap_def)
  with g d' d1 k show ?thesis by auto
qed

lemma shrink_cases: "shrink d = Inr d \<or> shrink d = resize d (Minsize d)"
  by (simp add: shrink_def)

lemma shrink_invar:
  fixes d :: "('a::zero) deque"
  assumes "invar d"
  shows "\<exists>d'. shrink d = Inr d' \<and> invar d' \<and> contents d' = contents d
           \<and> len d' = len d \<and> Minsize d' = Minsize d \<and> Shrink d' = Shrink d
           \<and> (d' = d \<or> cap (dat d') = Minsize d)"
proof (cases "shrink d = Inr d")
  case True
  with assms show ?thesis by simp
next
  case False
  then have le: "len d \<le> Minsize d" and s: "shrink d = resize d (Minsize d)"
    by (auto simp: shrink_def split: if_splits)
  from resize_invar [OF assms le] s show ?thesis by auto
qed

lemma Push_invar:
  fixes d :: "('a::zero) deque"
  assumes "invar d" and "len d + int (length vs) \<le> 2 ^ 62"
  shows "\<exists>d'. Push d vs = Inr d' \<and> invar d' \<and> contents d' = contents d @ vs
           \<and> len d' = len d + int (length vs) \<and> Shrink d' = Shrink d
           \<and> (cap (dat d') = cap (dat d) \<and> Minsize d' = Minsize d \<or>
                Minsize d' = (if Minsize d \<le> 0 then DefaultSize else Minsize d) \<and>
                (\<exists>k. cap (dat d') = (if dat d = [] then Minsize d' else cap (dat d)) * 2 ^ k))"
proof -
  from grow_invar [OF assms(1) _ assms(2)] obtain d1 where
    d1: "grow d (int (length vs)) = Inr d1" "invar d1" "contents d1 = contents d"
      "len d1 = len d" "Shrink d1 = Shrink d" "len d + int (length vs) \<le> cap (dat d1)"
      "d1 = d \<or>
         Minsize d1 = (if Minsize d \<le> 0 then DefaultSize else Minsize d) \<and>
         (\<exists>k. cap (dat d1) = (if dat d = [] then Minsize d1 else cap (dat d)) * 2 ^ k)"
    by auto
  from d1 have "len d1 + int (length vs) \<le> cap (dat d1)" by simp
  from push_slots_own [OF d1(2) this] obtain d' where
    d': "push_slots (if reallocates d (int (length vs)) then Some (dat d) else None) d1 (map Own vs)
        = Inr d'"
      "invar d'" "contents d' = contents d1 @ vs"
      "length (dat d') = length (dat d1)" "len d' = len d1 + int (length vs)"
      "Minsize d' = Minsize d1" "Shrink d' = Shrink d1"
    by auto
  have "Push d vs = Inr d'" using d1(1) d'(1) by (simp add: Push_def Push_slice_def)
  moreover have "cap (dat d') = cap (dat d1)" using d'(4) by (simp add: cap_def)
  ultimately show ?thesis using d1 d' by auto
qed

lemma Unshift_invar:
  fixes d :: "('a::zero) deque"
  assumes "invar d" and "len d + int (length vs) \<le> 2 ^ 62"
  shows "\<exists>d'. Unshift d vs = Inr d' \<and> invar d' \<and> contents d' = rev vs @ contents d
           \<and> len d' = len d + int (length vs) \<and> Shrink d' = Shrink d
           \<and> (cap (dat d') = cap (dat d) \<and> Minsize d' = Minsize d \<or>
                Minsize d' = (if Minsize d \<le> 0 then DefaultSize else Minsize d) \<and>
                (\<exists>k. cap (dat d') = (if dat d = [] then Minsize d' else cap (dat d)) * 2 ^ k))"
proof -
  from grow_invar [OF assms(1) _ assms(2)] obtain d1 where
    d1: "grow d (int (length vs)) = Inr d1" "invar d1" "contents d1 = contents d"
      "len d1 = len d" "Shrink d1 = Shrink d" "len d + int (length vs) \<le> cap (dat d1)"
      "d1 = d \<or>
         Minsize d1 = (if Minsize d \<le> 0 then DefaultSize else Minsize d) \<and>
         (\<exists>k. cap (dat d1) = (if dat d = [] then Minsize d1 else cap (dat d)) * 2 ^ k)"
    by auto
  from d1 have "len d1 + int (length vs) \<le> cap (dat d1)" by simp
  from unshift_slots_own [OF d1(2) this] obtain d' where
    d': "unshift_slots (if reallocates d (int (length vs)) then Some (dat d) else None) d1 (map Own vs)
        = Inr d'"
      "invar d'" "contents d' = rev vs @ contents d1"
      "length (dat d') = length (dat d1)" "len d' = len d1 + int (length vs)"
      "Minsize d' = Minsize d1" "Shrink d' = Shrink d1"
    by auto
  have "Unshift d vs = Inr d'" using d1(1) d'(1) by (simp add: Unshift_def Unshift_slice_def)
  moreover have "cap (dat d') = cap (dat d1)" using d'(4) by (simp add: cap_def)
  ultimately show ?thesis using d1 d' by auto
qed

lemma Pop_alt:
  "Pop d =
     (if len d > 0 then
        (case index_go (dat d) (tail d) of
           Inl e \<Rightarrow> Inl e
         | Inr v \<Rightarrow>
             (case shrink (d\<lparr>len := len d - 1,
                     tail := (if tail d = 0 then cap (dat d) else tail d) - 1\<rparr>) of
                Inl e \<Rightarrow> Inl e
              | Inr d4 \<Rightarrow> Inr ((v, True), d4)))
      else Inr ((0, False), d))"
  by (simp add: Pop_def Let_def split: sum.splits)

lemma Shift_alt:
  "Shift d =
     (if len d > 0 then
        (case index_go (dat d) (head d) of
           Inl e \<Rightarrow> Inl e
         | Inr v \<Rightarrow>
             (case shrink (d\<lparr>len := len d - 1,
                     head := (if head d + 1 = cap (dat d) then 0 else head d + 1)\<rparr>) of
                Inl e \<Rightarrow> Inl e
              | Inr d4 \<Rightarrow> Inr ((v, True), d4)))
      else Inr ((0, False), d))"
  by (simp add: Shift_def Let_def split: sum.splits)

lemma pop_step:
  assumes "invar d" and "0 < len d"
  defines "d1 \<equiv> d\<lparr>len := len d - 1, tail := (if tail d = 0 then cap (dat d) else tail d) - 1\<rparr>"
  shows "index_go (dat d) (tail d) = Inr (last (contents d))"
    and "invar d1" and "contents d1 = butlast (contents d)"
proof -
  from assms have ne: "dat d \<noteq> []" by (auto simp: invar_def cap_def)
  from assms(1) ne obtain h n where hn: "head d = int h" "len d = int n" "h < length (dat d)"
    "n \<le> length (dat d)" "tail d = (int h + int n - 1) mod int (length (dat d))"
    "contents d = ring_walk (dat d) h n"
    by (rule invar_nonemptyD)
  from assms(2) hn obtain m where m: "n = Suc m" by (cases n) auto
  define c where "c = length (dat d)"
  have c: "0 < c" using ne by (simp add: c_def)
  have t: "tail d = int ((h + m) mod c)"
    using hn(5) m by (simp add: c_def zmod_int)
  have tr: "0 \<le> tail d" "tail d < int c"
    using invar_tail_range [OF assms(1) ne] by (simp_all add: cap_def c_def)
  show "index_go (dat d) (tail d) = Inr (last (contents d))"
    using tr t hn(6) m by (simp add: index_go_def cap_def c_def ring_Suc)
  have "(if tail d = 0 then cap (dat d) else tail d) - 1 = (tail d - 1) mod int c"
    unfolding cap_def c_def [symmetric] using tr by (rule wrap_dec)
  also have "\<dots> = (int h + int m - 1) mod int c"
    using hn(5) m by (simp add: c_def mod_simps)
  finally have e: "(if tail d = 0 then cap (dat d) else tail d) - 1
      = (int h + int m - 1) mod int c" .
  have "tail d1 = (if tail d = 0 then cap (dat d) else tail d) - 1"
    by (simp add: d1_def)
  with e have t1: "tail d1 = (int h + int m - 1) mod int c"
    by (simp only:)
  show "invar d1"
    using hn m t1 by (simp add: invar_def d1_def cap_def c_def)
  show "contents d1 = butlast (contents d)"
    using hn m by (simp add: contents_def d1_def ring_Suc)
qed

lemma shift_step:
  assumes "invar d" and "0 < len d"
  defines "d1 \<equiv> d\<lparr>len := len d - 1, head := (if head d + 1 = cap (dat d) then 0 else head d + 1)\<rparr>"
  shows "index_go (dat d) (head d) = Inr (hd (contents d))"
    and "invar d1" and "contents d1 = tl (contents d)"
proof -
  from assms have ne: "dat d \<noteq> []" by (auto simp: invar_def cap_def)
  from assms(1) ne obtain h n where hn: "head d = int h" "len d = int n" "h < length (dat d)"
    "n \<le> length (dat d)" "tail d = (int h + int n - 1) mod int (length (dat d))"
    "contents d = ring_walk (dat d) h n"
    by (rule invar_nonemptyD)
  from assms(2) hn obtain m where m: "n = Suc m" by (cases n) auto
  define c where "c = length (dat d)"
  have c: "0 < c" using ne by (simp add: c_def)
  have r: "ring_walk (dat d) h n = dat d ! h # ring_walk (dat d) (Suc h mod c) m"
    using ring_shift [of n h "dat d"] hn m by (simp add: c_def)
  show "index_go (dat d) (head d) = Inr (hd (contents d))"
    using hn r by (simp add: index_go_def cap_def)
  have "(if head d + 1 = cap (dat d) then 0 else head d + 1) = (int h + 1) mod int c"
    unfolding cap_def c_def [symmetric] hn(1)
    using hn(3) by (intro wrap_inc) (simp_all add: c_def)
  also have "\<dots> = int (Suc h mod c)"
    by (simp add: zmod_int add.commute)
  finally have e: "(if head d + 1 = cap (dat d) then 0 else head d + 1) = int (Suc h mod c)" .
  have "head d1 = (if head d + 1 = cap (dat d) then 0 else head d + 1)"
    by (simp add: d1_def)
  with e have h1: "head d1 = int (Suc h mod c)"
    by (simp only:)
  have "(int (Suc h mod c) + int m - 1) mod int c
      = ((1 + int h) mod int c + (int m - 1)) mod int c"
    by (simp add: zmod_int algebra_simps)
  also have "\<dots> = ((1 + int h) + (int m - 1)) mod int c"
    by (rule mod_add_left_eq)
  also have "\<dots> = (int h + int n - 1) mod int c"
    using m by (simp add: algebra_simps)
  finally have "(int (Suc h mod c) + int m - 1) mod int c = (int h + int n - 1) mod int c" .
  then show "invar d1"
    using hn m h1 c by (simp add: invar_def d1_def cap_def c_def [symmetric])
  show "contents d1 = tl (contents d)"
    using hn m h1 r by (simp add: contents_def d1_def c_def)
qed

lemma Pop_invar:
  fixes d :: "('a::zero) deque"
  assumes "invar d" and "0 < len d"
  shows "\<exists>d'. Pop d = Inr ((last (contents d), True), d') \<and> invar d'
           \<and> contents d' = butlast (contents d) \<and> len d' = len d - 1
           \<and> Minsize d' = Minsize d \<and> Shrink d' = Shrink d
           \<and> (cap (dat d') = cap (dat d) \<or> cap (dat d') = Minsize d)"
proof -
  define d1 where
    "d1 = d\<lparr>len := len d - 1, tail := (if tail d = 0 then cap (dat d) else tail d) - 1\<rparr>"
  have i: "index_go (dat d) (tail d) = Inr (last (contents d))"
    and d1: "invar d1" "contents d1 = butlast (contents d)"
    using pop_step [OF assms] by (simp_all add: d1_def)
  from shrink_invar [OF d1(1)] obtain d' where d': "shrink d1 = Inr d'" "invar d'"
    "contents d' = contents d1" "len d' = len d1" "Minsize d' = Minsize d1"
    "Shrink d' = Shrink d1" "d' = d1 \<or> cap (dat d') = Minsize d1"
    by blast
  have "Pop d = Inr ((last (contents d), True), d')"
    unfolding Pop_alt d1_def [symmetric] using assms(2) i d'(1) by simp
  moreover have "dat d1 = dat d" "len d1 = len d - 1" "Minsize d1 = Minsize d"
    "Shrink d1 = Shrink d"
    by (simp_all add: d1_def)
  ultimately show ?thesis using d' d1 by auto
qed

lemma Shift_invar:
  fixes d :: "('a::zero) deque"
  assumes "invar d" and "0 < len d"
  shows "\<exists>d'. Shift d = Inr ((hd (contents d), True), d') \<and> invar d'
           \<and> contents d' = tl (contents d) \<and> len d' = len d - 1
           \<and> Minsize d' = Minsize d \<and> Shrink d' = Shrink d
           \<and> (cap (dat d') = cap (dat d) \<or> cap (dat d') = Minsize d)"
proof -
  define d1 where
    "d1 = d\<lparr>len := len d - 1, head := (if head d + 1 = cap (dat d) then 0 else head d + 1)\<rparr>"
  have i: "index_go (dat d) (head d) = Inr (hd (contents d))"
    and d1: "invar d1" "contents d1 = tl (contents d)"
    using shift_step [OF assms] by (simp_all add: d1_def)
  from shrink_invar [OF d1(1)] obtain d' where d': "shrink d1 = Inr d'" "invar d'"
    "contents d' = contents d1" "len d' = len d1" "Minsize d' = Minsize d1"
    "Shrink d' = Shrink d1" "d' = d1 \<or> cap (dat d') = Minsize d1"
    by blast
  have "Shift d = Inr ((hd (contents d), True), d')"
    unfolding Shift_alt d1_def [symmetric] using assms(2) i d'(1) by simp
  moreover have "dat d1 = dat d" "len d1 = len d - 1" "Minsize d1 = Minsize d"
    "Shrink d1 = Shrink d"
    by (simp_all add: d1_def)
  ultimately show ?thesis using d' d1 by auto
qed

lemma Pop_empty: "len d \<le> 0 \<Longrightarrow> Pop d = Inr ((0, False), d)"
  by (simp add: Pop_def)

lemma Shift_empty: "len d \<le> 0 \<Longrightarrow> Shift d = Inr ((0, False), d)"
  by (simp add: Shift_def)

lemma invar_len: "invar d \<Longrightarrow> len d = int (length (contents d))"
  by (simp add: invar_def contents_def)

lemma repeat_Shift:
  fixes d :: "('a::zero) deque"
  assumes "invar d" and "n \<le> length (contents d)"
  shows "\<exists>d'. repeat_op Shift n d = Inr (map (\<lambda>v. (v, True)) (take n (contents d)), d')
           \<and> invar d' \<and> contents d' = drop n (contents d)
           \<and> Minsize d' = Minsize d \<and> Shrink d' = Shrink d"
  using assms
proof (induction n arbitrary: d)
  case 0
  then show ?case by simp
next
  case (Suc n)
  from Suc.prems(2) have "0 < length (contents d)" by arith
  then have pos: "0 < len d" using invar_len [OF Suc.prems(1)] by simp
  from Shift_invar [OF Suc.prems(1) pos] obtain d1 where
    d1: "Shift d = Inr ((hd (contents d), True), d1)" "invar d1"
      "contents d1 = tl (contents d)" "Minsize d1 = Minsize d" "Shrink d1 = Shrink d"
    by blast
  from Suc.prems(2) obtain x xs where c: "contents d = x # xs" by (cases "contents d") auto
  with Suc.prems(2) d1 have "n \<le> length (contents d1)" by simp
  from Suc.IH [OF d1(2) this] obtain d' where
    "repeat_op Shift n d1 = Inr (map (\<lambda>v. (v, True)) (take n (contents d1)), d')"
    "invar d'" "contents d' = drop n (contents d1)" "Minsize d' = Minsize d1"
    "Shrink d' = Shrink d1"
    by blast
  with d1 c show ?case by simp
qed

lemma repeat_Pop:
  fixes d :: "('a::zero) deque"
  assumes "invar d" and "n \<le> length (contents d)"
  shows "\<exists>d'. repeat_op Pop n d = Inr (map (\<lambda>v. (v, True)) (take n (rev (contents d))), d')
           \<and> invar d' \<and> contents d' = rev (drop n (rev (contents d)))
           \<and> Minsize d' = Minsize d \<and> Shrink d' = Shrink d"
  using assms
proof (induction n arbitrary: d)
  case 0
  then show ?case by simp
next
  case (Suc n)
  from Suc.prems(2) have "0 < length (contents d)" by arith
  then have pos: "0 < len d" using invar_len [OF Suc.prems(1)] by simp
  from Pop_invar [OF Suc.prems(1) pos] obtain d1 where
    d1: "Pop d = Inr ((last (contents d), True), d1)" "invar d1"
      "contents d1 = butlast (contents d)" "Minsize d1 = Minsize d" "Shrink d1 = Shrink d"
    by blast
  from Suc.prems(2) obtain x xs where c: "contents d = xs @ [x]"
    by (cases "contents d" rule: rev_cases) auto
  with Suc.prems(2) d1 have "n \<le> length (contents d1)" by simp
  from Suc.IH [OF d1(2) this] obtain d' where
    "repeat_op Pop n d1 = Inr (map (\<lambda>v. (v, True)) (take n (rev (contents d1))), d')"
    "invar d'" "contents d' = rev (drop n (rev (contents d1)))" "Minsize d' = Minsize d1"
    "Shrink d' = Shrink d1"
    by blast
  with d1 c show ?case by simp
qed

lemma ToSlice_invar:
  fixes d :: "('a::zero) deque"
  assumes "invar d"
  shows "\<exists>d'. ToSlice d = Inr (contents d, d') \<and> invar d' \<and> contents d' = contents d
           \<and> len d' = len d \<and> cap (dat d') = cap (dat d)
           \<and> Minsize d' = Minsize d \<and> Shrink d' = Shrink d"
proof (cases "len d = 0")
  case True
  then have "ToSlice d = Inr ([], d)" "contents d = []"
    by (simp_all add: ToSlice_def contents_def)
  with assms show ?thesis by simp
next
  case False
  with assms have ne: "dat d \<noteq> []" by (auto simp: invar_def cap_def)
  from assms ne obtain h n where hn: "head d = int h" "len d = int n" "h < length (dat d)"
    "n \<le> length (dat d)" "tail d = (int h + int n - 1) mod int (length (dat d))"
    "contents d = ring_walk (dat d) h n"
    by (rule invar_nonemptyD)
  show ?thesis
  proof (cases "head d = 0")
    case True
    then have "contents d = take n (dat d)"
      using hn ring_prefix [of n "dat d" "[]"] by simp
    then have "slice_go (dat d) 0 (len d) = Inr (contents d)"
      using hn by (simp add: slice_go_def cap_def)
    then have "ToSlice d = Inr (contents d, d)"
      using True False by (simp add: ToSlice_def)
    with assms show ?thesis by simp
  next
    case nz: False
    have "len d \<le> cap (dat d)" using assms by (simp add: invar_def)
    from resize_invar [OF assms this] obtain d' where d': "resize d (cap (dat d)) = Inr d'"
      "invar d'" "contents d' = contents d"
      "dat d' = contents d @ replicate (nat (cap (dat d) - len d)) 0"
      "cap (dat d') = cap (dat d)" "len d' = len d" "Minsize d' = Minsize d"
      "Shrink d' = Shrink d"
      by blast
    have "slice_go (dat d') 0 (len d') = Inr (contents d)"
      using d'(4,5,6) hn by (simp add: slice_go_def cap_def)
    then have "ToSlice d = Inr (contents d, d')"
      using nz False d'(1) by (simp add: ToSlice_def)
    with d' show ?thesis by simp
  qed
qed

lemma WrapSlice_eq:
  "WrapSlice d xs spare =
     d\<lparr>dat := xs @ spare, len := int (length xs), head := 0,
       tail := (if xs = [] then int (length spare) else int (length xs)) - 1\<rparr>"
  by (simp add: WrapSlice_def Let_def cap_def)

lemma WrapSlice_invar:
  "invar (WrapSlice d xs spare)" "contents (WrapSlice d xs spare) = xs"
proof -
  show "invar (WrapSlice d xs spare)"
  proof (cases "xs = []")
    case True
    then show ?thesis by (auto simp: WrapSlice_eq invar_def cap_def zmod_minus1)
  next
    case False
    then have "0 < length xs" by simp
    then have "(int (length xs) - 1) mod (int (length xs) + int (length spare))
        = int (length xs) - 1"
      by (intro mod_pos_pos_trivial) simp_all
    moreover have "0 < int (length xs) + int (length spare)"
      using \<open>0 < length xs\<close> by arith
    ultimately show ?thesis using False by (simp add: WrapSlice_eq invar_def cap_def)
  qed
  show "contents (WrapSlice d xs spare) = xs"
    using ring_prefix [of "length xs" xs spare] by (simp add: WrapSlice_eq contents_def)
qed

lemma new_deque_invar: "invar (new_deque m s)" "contents (new_deque m s) = []"
  by (simp_all add: new_deque_def invar_def contents_def cap_def)

lemma one_at_a_time_Push:
  fixes d :: "('a::zero) deque"
  assumes "invar d" and "len d + int (length vs) \<le> 2 ^ 62"
  shows "\<exists>cs d'. one_at_a_time Push d vs = Inr (cs, d') \<and> invar d'
           \<and> contents d' = contents d @ vs"
  using assms
proof (induction vs arbitrary: d)
  case Nil
  then show ?case by simp
next
  case (Cons v vs)
  have "len d + int (length [v]) \<le> 2 ^ 62" using Cons.prems(2) by simp
  from Push_invar [OF Cons.prems(1) this] obtain d1 where
    d1: "Push d [v] = Inr d1" "invar d1" "contents d1 = contents d @ [v]"
      "len d1 = len d + int (length [v])"
    by blast
  have "len d1 + int (length vs) \<le> 2 ^ 62" using Cons.prems(2) d1(4) by simp
  from Cons.IH [OF d1(2) this] obtain cs d' where
    "one_at_a_time Push d1 vs = Inr (cs, d')" "invar d'" "contents d' = contents d1 @ vs"
    by blast
  with d1 show ?case by simp
qed

lemma one_at_a_time_Unshift:
  fixes d :: "('a::zero) deque"
  assumes "invar d" and "len d + int (length vs) \<le> 2 ^ 62"
  shows "\<exists>cs d'. one_at_a_time Unshift d vs = Inr (cs, d') \<and> invar d'
           \<and> contents d' = rev vs @ contents d"
  using assms
proof (induction vs arbitrary: d)
  case Nil
  then show ?case by simp
next
  case (Cons v vs)
  have "len d + int (length [v]) \<le> 2 ^ 62" using Cons.prems(2) by simp
  from Unshift_invar [OF Cons.prems(1) this] obtain d1 where
    d1: "Unshift d [v] = Inr d1" "invar d1" "contents d1 = [v] @ contents d"
      "len d1 = len d + int (length [v])"
    by auto
  have "len d1 + int (length vs) \<le> 2 ^ 62" using Cons.prems(2) d1(4) by simp
  from Cons.IH [OF d1(2) this] obtain cs d' where
    "one_at_a_time Unshift d1 vs = Inr (cs, d')" "invar d'" "contents d' = rev vs @ contents d1"
    by blast
  with d1 show ?case by simp
qed

lemma drain_by_Shift:
  fixes d :: "('a::zero) deque"
  assumes "invar d" and "contents d = vs"
  shows "\<exists>d'. repeat_op Shift (length vs) d = Inr (map (\<lambda>v. (v, True)) vs, d') \<and> Len d' = 0"
proof -
  from repeat_Shift [OF assms(1), of "length vs"] assms(2) obtain d' where
    "repeat_op Shift (length vs) d = Inr (map (\<lambda>v. (v, True)) vs, d')" "invar d'"
    "contents d' = []"
    by auto
  then show ?thesis using invar_len [of d'] by (auto simp: Len_def)
qed

lemma drain_by_Pop:
  fixes d :: "('a::zero) deque"
  assumes "invar d" and "contents d = rev vs"
  shows "\<exists>d'. repeat_op Pop (length vs) d = Inr (map (\<lambda>v. (v, True)) vs, d') \<and> Len d' = 0"
proof -
  from repeat_Pop [OF assms(1), of "length vs"] assms(2) obtain d' where
    "repeat_op Pop (length vs) d = Inr (map (\<lambda>v. (v, True)) vs, d')" "invar d'"
    "contents d' = []"
    by auto
  then show ?thesis using invar_len [of d'] by (auto simp: Len_def)
qed

lemma shrink_never: "Shrink d = ShrinkNever \<Longrightarrow> shrink d = Inr d"
  by (simp add: shrink_def)

lemma Pop_never:
  fixes d :: "('a::zero) deque"
  assumes "invar d" and "Shrink d = ShrinkNever"
  shows "\<exists>r d'. Pop d = Inr (r, d') \<and> invar d' \<and> dat d' = dat d \<and> Shrink d' = ShrinkNever"
proof (cases "0 < len d")
  case True
  define d1 where
    "d1 = d\<lparr>len := len d - 1, tail := (if tail d = 0 then cap (dat d) else tail d) - 1\<rparr>"
  have i: "index_go (dat d) (tail d) = Inr (last (contents d))" and d1: "invar d1"
    using pop_step [OF assms(1) True] by (simp_all add: d1_def)
  have "shrink d1 = Inr d1" using assms(2) by (intro shrink_never) (simp add: d1_def)
  then have "Pop d = Inr ((last (contents d), True), d1)"
    unfolding Pop_alt d1_def [symmetric] using True i by simp
  moreover have "dat d1 = dat d" "Shrink d1 = ShrinkNever" using assms(2) by (simp_all add: d1_def)
  ultimately show ?thesis using d1 by blast
next
  case False
  then have "Pop d = Inr ((0, False), d)" by (simp add: Pop_empty)
  with assms show ?thesis by blast
qed

lemma Shift_never:
  fixes d :: "('a::zero) deque"
  assumes "invar d" and "Shrink d = ShrinkNever"
  shows "\<exists>r d'. Shift d = Inr (r, d') \<and> invar d' \<and> dat d' = dat d \<and> Shrink d' = ShrinkNever"
proof (cases "0 < len d")
  case True
  define d1 where
    "d1 = d\<lparr>len := len d - 1, head := (if head d + 1 = cap (dat d) then 0 else head d + 1)\<rparr>"
  have i: "index_go (dat d) (head d) = Inr (hd (contents d))" and d1: "invar d1"
    using shift_step [OF assms(1) True] by (simp_all add: d1_def)
  have "shrink d1 = Inr d1" using assms(2) by (intro shrink_never) (simp add: d1_def)
  then have "Shift d = Inr ((hd (contents d), True), d1)"
    unfolding Shift_alt d1_def [symmetric] using True i by simp
  moreover have "dat d1 = dat d" "Shrink d1 = ShrinkNever" using assms(2) by (simp_all add: d1_def)
  ultimately show ?thesis using d1 by blast
next
  case False
  then have "Shift d = Inr ((0, False), d)" by (simp add: Shift_empty)
  with assms show ?thesis by blast
qed

lemma exec_removals_never:
  fixes d :: "('a::zero) deque"
  assumes "invar d" and "Shrink d = ShrinkNever" and "list_all is_removal ops"
  shows "\<exists>d'. exec d ops = Inr d' \<and> dat d' = dat d"
  using assms
proof (induction ops arbitrary: d)
  case Nil
  then show ?case by simp
next
  case (Cons c ops)
  from Cons.prems(3) have rest: "list_all is_removal ops" and "is_removal c" by simp_all
  then consider "c = OpPop" | "c = OpShift" by (cases c) simp_all
  then obtain d1 where d1: "apply_op d c = Inr d1" "invar d1" "dat d1 = dat d"
    "Shrink d1 = ShrinkNever"
  proof cases
    case 1
    with Pop_never [OF Cons.prems(1,2)] that show ?thesis by auto
  next
    case 2
    with Shift_never [OF Cons.prems(1,2)] that show ?thesis by auto
  qed
  from Cons.IH [OF d1(2) d1(4) rest] d1 show ?case by auto
qed

lemma length_copy_go: "length (fst (copy_go dst src)) = length dst"
  by (simp add: copy_go_def Let_def)

lemma snd_copy_go: "snd (copy_go dst src) = int (min (length dst) (length src))"
  by (simp add: copy_go_def Let_def)

lemma resize_frame:
  fixes d :: "('a::zero) deque"
  assumes "resize d sz = Inr d'"
  shows "cap (dat d') = sz" and "Minsize d' = Minsize d" and "Shrink d' = Shrink d"
    and "len d' = len d"
proof -
  from assms obtain tmp :: "'a list" where tmp: "make_go sz = Inr tmp"
    by (auto simp: resize_def split: sum.splits)
  then have sz: "0 \<le> sz" "length tmp = nat sz"
    by (auto simp: make_go_def split: if_splits)
  from assms tmp obtain xs where xs: "d' = resize_finish d sz xs" "length xs = length tmp"
  proof (cases "0 < len d")
    case False
    with assms tmp have "d' = resize_finish d sz tmp" by (auto simp: resize_def)
    with that show ?thesis by blast
  next
    case True
    define end1 where
      "end1 = (if cap (dat d) - head d > len d then head d + len d else cap (dat d))"
    from assms tmp True obtain s1 where s1: "slice_go (dat d) (head d) end1 = Inr s1"
      by (auto simp: resize_def Let_def end1_def split: sum.splits)
    define tmp1 where "tmp1 = fst (copy_go tmp s1)"
    define count where "count = snd (copy_go tmp s1)"
    have l1: "length tmp1 = length tmp" by (simp add: tmp1_def length_copy_go)
    have cnt: "0 \<le> count" "nat count \<le> length tmp1"
      by (simp_all add: count_def snd_copy_go l1)
    have cp: "copy_go tmp s1 = (tmp1, count)" by (simp add: tmp1_def count_def)
    show ?thesis
    proof (cases "len d > count")
      case False
      with assms tmp True s1 cp have "d' = resize_finish d sz tmp1"
        by (simp add: resize_def Let_def end1_def [symmetric])
      with l1 that show ?thesis by blast
    next
      case gt: True
      with assms tmp True s1 cp obtain s2 where
        "d' = resize_finish d sz
           (take (nat count) tmp1 @ fst (copy_go (drop (nat count) tmp1) s2))"
        by (auto simp: resize_def Let_def end1_def [symmetric] split: sum.splits)
      moreover have "length (take (nat count) tmp1 @ fst (copy_go (drop (nat count) tmp1) s2))
          = length tmp"
        using cnt l1 by (simp add: length_copy_go)
      ultimately show ?thesis using that by blast
    qed
  qed
  then show "cap (dat d') = sz" and "Minsize d' = Minsize d" and "Shrink d' = Shrink d"
    and "len d' = len d"
    using sz by (simp_all add: resize_finish_def cap_def)
qed

lemma shrink_cap:
  fixes d :: "('a::zero) deque"
  assumes "shrink d = Inr d'"
  shows "cap (dat d') = cap (dat d) \<or> cap (dat d') = Minsize d"
  using assms shrink_cases [of d] resize_frame(1) [of d "Minsize d" d'] by auto

lemma Pop_cap:
  fixes d :: "('a::zero) deque"
  assumes "Pop d = Inr (r, d')"
  shows "Cap d' = Cap d \<or> Cap d' = Minsize d"
proof (cases "0 < len d")
  case False
  with assms show ?thesis by (simp add: Pop_def)
next
  case True
  define d1 where
    "d1 = d\<lparr>len := len d - 1, tail := (if tail d = 0 then cap (dat d) else tail d) - 1\<rparr>"
  from assms True have "shrink d1 = Inr d'"
    unfolding Pop_alt d1_def [symmetric] by (auto split: sum.splits)
  from shrink_cap [OF this] show ?thesis by (simp add: d1_def Cap_def)
qed

lemma Shift_cap:
  fixes d :: "('a::zero) deque"
  assumes "Shift d = Inr (r, d')"
  shows "Cap d' = Cap d \<or> Cap d' = Minsize d"
proof (cases "0 < len d")
  case False
  with assms show ?thesis by (simp add: Shift_def)
next
  case True
  define d1 where
    "d1 = d\<lparr>len := len d - 1, head := (if head d + 1 = cap (dat d) then 0 else head d + 1)\<rparr>"
  from assms True have "shrink d1 = Inr d'"
    unfolding Shift_alt d1_def [symmetric] by (auto split: sum.splits)
  from shrink_cap [OF this] show ?thesis by (simp add: d1_def Cap_def)
qed

lemma Pop_returns:
  fixes d :: "('a::zero) deque"
  assumes "invar d"
  shows "\<exists>r d'. Pop d = Inr (r, d')"
proof (cases "0 < len d")
  case True
  from Pop_invar [OF assms True] show ?thesis by blast
next
  case False
  then have "Pop d = Inr ((0, False), d)" by (simp add: Pop_empty)
  then show ?thesis by blast
qed

lemma Shift_returns:
  fixes d :: "('a::zero) deque"
  assumes "invar d"
  shows "\<exists>r d'. Shift d = Inr (r, d')"
proof (cases "0 < len d")
  case True
  from Shift_invar [OF assms True] show ?thesis by blast
next
  case False
  then have "Shift d = Inr ((0, False), d)" by (simp add: Shift_empty)
  then show ?thesis by blast
qed

lemma doubled_from_refl: "doubled_from b b"
  by (subst doubled_from.simps) simp

lemma doubled_from_double:
  assumes "0 < c" and "doubled_from b c"
  shows "doubled_from b (c * 2)"
  using assms by (subst doubled_from.simps) simp

lemma doubled_from_power:
  assumes "0 < c" and "doubled_from b c"
  shows "doubled_from b (c * 2 ^ k)"
proof (induction k)
  case 0
  with assms show ?case by simp
next
  case (Suc k)
  have "0 < c * 2 ^ k" using assms(1) by simp
  moreover have "c * 2 ^ Suc k = c * 2 ^ k * 2" by simp
  ultimately show ?case using doubled_from_double [of "c * 2 ^ k" b] Suc by (simp only:)
qed

lemma doubled_from_is_power:
  assumes "doubled_from b c"
  shows "\<exists>k. c = b * 2 ^ k"
  using assms
proof (induction b c rule: doubled_from.induct)
  case (1 b c)
  show ?case
  proof (cases "c = b")
    case True
    then have "c = b * 2 ^ 0" by simp
    then show ?thesis by blast
  next
    case False
    with "1.prems" have c: "\<not> (c \<le> 0 \<or> c mod 2 \<noteq> 0)" and d: "doubled_from b (c div 2)"
      by (subst (asm) doubled_from.simps, simp split: if_splits)+
    from "1.IH" [OF False c d] obtain k where "c div 2 = b * 2 ^ k" by blast
    moreover have "c = c div 2 * 2" using c by presburger
    ultimately have "c = b * 2 ^ Suc k" by simp
    then show ?thesis by blast
  qed
qed

lemma doubled_from_zero: "doubled_from 0 c \<Longrightarrow> c = 0"
  using doubled_from_is_power [of 0 c] by simp

lemma is_pow2_trans:
  assumes "is_pow2 b" and "doubled_from b c"
  shows "is_pow2 c"
proof -
  from assms(1) obtain j where j: "b = 2 ^ j"
    using doubled_from_is_power [of 1 b] by (auto simp: is_pow2_def)
  from assms(2) obtain k where "c = b * 2 ^ k"
    using doubled_from_is_power by blast
  with j have "c = 1 * 2 ^ (j + k)" by (simp add: power_add)
  moreover have "doubled_from 1 (1 * 2 ^ (j + k))"
    by (rule doubled_from_power) (simp_all add: doubled_from_refl)
  ultimately show ?thesis by (simp add: is_pow2_def)
qed

lemma effective_minsize_pos: "0 < effective_minsize m"
  by (simp add: effective_minsize_def DefaultSize_def)

lemma cap_from_base_grown:
  assumes "cap_from_base m bs c" and "0 < c"
  shows "cap_from_base m bs (c * 2 ^ k)"
proof -
  from assms consider "doubled_from (effective_minsize m) c"
    | b where "b \<in> set bs" and "doubled_from b c"
    by (auto simp: cap_from_base_def list_ex_iff)
  then show ?thesis
  proof cases
    case 1
    from doubled_from_power [OF assms(2) this] show ?thesis by (simp add: cap_from_base_def)
  next
    case 2
    from doubled_from_power [OF assms(2) 2(2)] 2(1) show ?thesis
      by (auto simp: cap_from_base_def list_ex_iff)
  qed
qed

lemma cap_from_base_minsize: "cap_from_base m bs (effective_minsize m * 2 ^ k)"
  using doubled_from_power [OF effective_minsize_pos doubled_from_refl, of m k]
  by (simp add: cap_from_base_def)

lemma cap_from_base_append: "cap_from_base m bs c \<Longrightarrow> cap_from_base m (bs @ cs) c"
  by (auto simp: cap_from_base_def list_ex_iff)

lemma cap_inv_grown:
  fixes d d' :: "'a deque"
  assumes "cap_inv m bs d" and "invar d'"
    and "cap (dat d') = cap (dat d) \<and> Minsize d' = Minsize d \<or>
         Minsize d' = (if Minsize d \<le> 0 then DefaultSize else Minsize d) \<and>
         (\<exists>k. cap (dat d') = (if dat d = [] then Minsize d' else cap (dat d)) * 2 ^ k)"
  shows "cap_inv m bs d'"
proof -
  from assms(1) have ms: "Minsize d = m \<or> Minsize d = effective_minsize m"
    and cb: "cap_from_base m bs (cap (dat d))"
    by (simp_all add: cap_inv_def Cap_def)
  from assms(3) show ?thesis
  proof
    assume "cap (dat d') = cap (dat d) \<and> Minsize d' = Minsize d"
    with assms(2) ms cb show ?thesis by (simp add: cap_inv_def Cap_def)
  next
    assume a: "Minsize d' = (if Minsize d \<le> 0 then DefaultSize else Minsize d) \<and>
         (\<exists>k. cap (dat d') = (if dat d = [] then Minsize d' else cap (dat d)) * 2 ^ k)"
    then have m': "Minsize d' = effective_minsize m"
      using ms by (auto simp: effective_minsize_def DefaultSize_def split: if_splits)
    from a obtain k where k: "cap (dat d') = (if dat d = [] then Minsize d' else cap (dat d)) * 2 ^ k"
      by blast
    have "cap_from_base m bs (cap (dat d'))"
    proof (cases "dat d = []")
      case True
      with k m' show ?thesis by (simp add: cap_from_base_minsize)
    next
      case False
      then have "0 < cap (dat d)" by (simp add: cap_def)
      from cap_from_base_grown [OF cb this] k False show ?thesis by simp
    qed
    with assms(2) m' show ?thesis by (simp add: cap_inv_def Cap_def)
  qed
qed

lemma cap_inv_shrunk:
  fixes d d' :: "'a deque"
  assumes "cap_inv m bs d" and "invar d'" and "Minsize d' = Minsize d"
    and "cap (dat d') = cap (dat d) \<or> cap (dat d') = Minsize d"
  shows "cap_inv m bs d'"
proof -
  from assms(1) have ms: "Minsize d = m \<or> Minsize d = effective_minsize m"
    and cb: "cap_from_base m bs (cap (dat d))"
    by (simp_all add: cap_inv_def Cap_def)
  have "cap_from_base m bs (cap (dat d'))"
  proof (cases "cap (dat d') = cap (dat d)")
    case True
    with cb show ?thesis by simp
  next
    case False
    with assms(4) have e: "cap (dat d') = Minsize d" by simp
    show ?thesis
    proof (cases "Minsize d = effective_minsize m")
      case True
      with e cap_from_base_minsize [of m bs 0] show ?thesis by simp
    next
      case False
      with ms have "Minsize d = m" and "m \<le> 0"
        by (auto simp: effective_minsize_def split: if_splits)
      moreover have "0 \<le> cap (dat d')" by (simp add: cap_def)
      ultimately have "cap (dat d') = 0" using e by simp
      then show ?thesis by (simp add: cap_from_base_def)
    qed
  qed
  with assms(2,3) ms show ?thesis by (simp add: cap_inv_def Cap_def)
qed

lemma Peek_invar:
  fixes d :: "('a::zero) deque"
  assumes "invar d"
  shows "Peek d = Inr (if 0 < len d then (last (contents d), True) else (0, False), d)"
    and "PeekShift d = Inr (if 0 < len d then (hd (contents d), True) else (0, False), d)"
proof -
  show "Peek d = Inr (if 0 < len d then (last (contents d), True) else (0, False), d)"
    using pop_step(1) [OF assms] by (simp add: Peek_def)
  show "PeekShift d = Inr (if 0 < len d then (hd (contents d), True) else (0, False), d)"
    using shift_step(1) [OF assms] by (simp add: PeekShift_def)
qed

lemma volume_Cons: "volume (c # cs) = volume [c] + volume cs"
  by (cases c) simp_all

lemma volume_nonneg: "0 \<le> volume cs"
  by (induction cs rule: volume.induct) simp_all

lemma apply_op_cap_inv:
  fixes d :: "('a::zero) deque"
  assumes "cap_inv m bs d" and "len d + volume [c] \<le> 2 ^ 62"
  shows "\<exists>d'. apply_op d c = Inr d' \<and> cap_inv m (bs @ adopted [c]) d'
           \<and> len d' \<le> len d + volume [c]"
proof -
  from assms have inv: "invar d" by (simp add: cap_inv_def)
  then have nn: "0 \<le> len d" by (simp add: invar_def)
  show ?thesis
  proof (cases c)
    case (OpPush vs)
    with assms(2) have "len d + int (length vs) \<le> 2 ^ 62" by simp
    from Push_invar [OF inv this] obtain d' where "Push d vs = Inr d'" "invar d'"
      "cap (dat d') = cap (dat d) \<and> Minsize d' = Minsize d \<or>
         Minsize d' = (if Minsize d \<le> 0 then DefaultSize else Minsize d) \<and>
         (\<exists>k. cap (dat d') = (if dat d = [] then Minsize d' else cap (dat d)) * 2 ^ k)"
      "len d' = len d + int (length vs)"
      by blast
    with cap_inv_grown [OF assms(1) this(2,3)] OpPush show ?thesis by simp
  next
    case (OpUnshift vs)
    with assms(2) have "len d + int (length vs) \<le> 2 ^ 62" by simp
    from Unshift_invar [OF inv this] obtain d' where "Unshift d vs = Inr d'" "invar d'"
      "cap (dat d') = cap (dat d) \<and> Minsize d' = Minsize d \<or>
         Minsize d' = (if Minsize d \<le> 0 then DefaultSize else Minsize d) \<and>
         (\<exists>k. cap (dat d') = (if dat d = [] then Minsize d' else cap (dat d)) * 2 ^ k)"
      "len d' = len d + int (length vs)"
      by blast
    with cap_inv_grown [OF assms(1) this(2,3)] OpUnshift show ?thesis by simp
  next
    case OpPop
    show ?thesis
    proof (cases "0 < len d")
      case True
      from Pop_invar [OF inv True] obtain r d' where "Pop d = Inr (r, d')" "invar d'"
        "Minsize d' = Minsize d" "cap (dat d') = cap (dat d) \<or> cap (dat d') = Minsize d"
        "len d' = len d - 1"
        by blast
      with cap_inv_shrunk [OF assms(1) this(2,3,4)] OpPop show ?thesis by simp
    next
      case False
      with assms(1) OpPop show ?thesis by (simp add: Pop_empty)
    qed
  next
    case OpShift
    show ?thesis
    proof (cases "0 < len d")
      case True
      from Shift_invar [OF inv True] obtain r d' where "Shift d = Inr (r, d')" "invar d'"
        "Minsize d' = Minsize d" "cap (dat d') = cap (dat d) \<or> cap (dat d') = Minsize d"
        "len d' = len d - 1"
        by blast
      with cap_inv_shrunk [OF assms(1) this(2,3,4)] OpShift show ?thesis by simp
    next
      case False
      with assms(1) OpShift show ?thesis by (simp add: Shift_empty)
    qed
  next
    case OpPeek
    with assms(1) Peek_invar(1) [OF inv] show ?thesis by simp
  next
    case OpPeekShift
    with assms(1) Peek_invar(2) [OF inv] show ?thesis by simp
  next
    case OpLen
    with assms(1) show ?thesis by simp
  next
    case OpCap
    with assms(1) show ?thesis by simp
  next
    case OpToSlice
    from ToSlice_invar [OF inv] obtain d' where "ToSlice d = Inr (contents d, d')" "invar d'"
      "cap (dat d') = cap (dat d)" "Minsize d' = Minsize d" "len d' = len d"
      by blast
    with cap_inv_shrunk [OF assms(1) this(2) this(4)] OpToSlice show ?thesis by simp
  next
    case (OpWrapSlice xs spare)
    have "Minsize (WrapSlice d xs spare) = Minsize d"
      and "Cap (WrapSlice d xs spare) = cap (xs @ spare)"
      and "len (WrapSlice d xs spare) = int (length xs)"
      by (simp_all add: WrapSlice_eq Cap_def)
    moreover have "cap_from_base m (bs @ [cap (xs @ spare)]) (cap (xs @ spare))"
      by (simp add: cap_from_base_def doubled_from_refl)
    ultimately show ?thesis
      using assms(1) nn WrapSlice_invar(1) [of d xs spare] OpWrapSlice
      by (simp add: cap_inv_def)
  qed
qed

lemma adopted_Cons: "adopted (c # cs) = adopted [c] @ adopted cs"
  by (cases c) simp_all

lemma exec_cap_inv:
  fixes d :: "('a::zero) deque"
  assumes "cap_inv m bs d" and "len d + volume ops \<le> 2 ^ 62"
  shows "\<exists>d'. exec d ops = Inr d' \<and> cap_inv m (bs @ adopted ops) d'"
  using assms
proof (induction ops arbitrary: d bs)
  case Nil
  then show ?case by simp
next
  case (Cons c ops)
  have v: "volume (c # ops) = volume [c] + volume ops" by (rule volume_Cons)
  have "len d + volume [c] \<le> 2 ^ 62"
    using Cons.prems(2) volume_nonneg [of ops] unfolding v by simp
  from apply_op_cap_inv [OF Cons.prems(1) this] obtain d1 where
    d1: "apply_op d c = Inr d1" "cap_inv m (bs @ adopted [c]) d1"
      "len d1 \<le> len d + volume [c]"
    by blast
  have "len d1 + volume ops \<le> 2 ^ 62"
    using Cons.prems(2) d1(3) unfolding v by simp
  from Cons.IH [OF d1(2) this] obtain d' where
    "exec d1 ops = Inr d'" "cap_inv m ((bs @ adopted [c]) @ adopted ops) d'"
    by blast
  with d1(1) show ?case by (simp add: adopted_Cons [of c ops])
qed

lemma new_deque_cap_inv: "cap_inv m [] (new_deque m s)"
  using new_deque_invar(1) [of m s]
  by (simp add: cap_inv_def cap_from_base_def Cap_def cap_def new_deque_def)

lemma cap_from_base_pow2:
  assumes "cap_from_base m bs c" and "is_pow2 (effective_minsize m)"
    and "list_all (\<lambda>b. b = 0 \<or> is_pow2 b) bs"
  shows "c = 0 \<or> is_pow2 c"
proof -
  from assms(1) consider "c = 0" | "doubled_from (effective_minsize m) c"
    | b where "b \<in> set bs" and "doubled_from b c"
    by (auto simp: cap_from_base_def list_ex_iff)
  then show ?thesis
  proof cases
    case 1
    then show ?thesis by simp
  next
    case 2
    from is_pow2_trans [OF assms(2) this] show ?thesis by simp
  next
    case 3
    from 3(1) assms(3) have "b = 0 \<or> is_pow2 b" by (simp add: list_all_iff)
    then show ?thesis
    proof
      assume "b = 0"
      with 3(2) show ?thesis by (simp add: doubled_from_zero)
    next
      assume "is_pow2 b"
      from is_pow2_trans [OF this 3(2)] show ?thesis by simp
    qed
  qed
qed

lemma shrink_last_element:
  fixes d1 :: "('a::zero) deque"
  assumes "len d1 = 0" and "Shrink d1 = ShrinkIfEmpty \<or> Shrink d1 = ShrinkAt20Pct"
    and "dat d1 \<noteq> []"
  shows "Minsize d1 = 0 \<Longrightarrow> shrink d1 = Inr (d1\<lparr>dat := [], head := 0, tail := - 1\<rparr>)"
    and "Minsize d1 < 0 \<Longrightarrow> shrink d1 = Inr d1"
proof -
  assume m: "Minsize d1 = 0"
  have "shrink d1 = resize d1 0"
    using assms m
    by (auto simp: shrink_def ShrinkNever_def ShrinkIfEmpty_def ShrinkAt20Pct_def cap_def
        wrap64_def)
  then show "shrink d1 = Inr (d1\<lparr>dat := [], head := 0, tail := - 1\<rparr>)"
    using assms(1) by (simp add: resize_empty)
next
  assume "Minsize d1 < 0"
  with assms(1) show "shrink d1 = Inr d1" by (simp add: shrink_def)
qed

lemma shrink_at_20_percent:
  fixes d :: "('a::zero) deque"
  assumes "Shrink d = ShrinkAt20Pct" and "0 \<le> len d" and "len d * 5 < 2 ^ 63"
  shows "shrink d =
     (if len d \<le> Minsize d \<and> cap (dat d) \<noteq> Minsize d \<and> len d * 5 \<le> cap (dat d)
      then resize d (Minsize d) else Inr d)"
proof -
  have "wrap64 (len d * 5) = len d * 5"
    using assms(2,3) by (intro wrap64_id) simp_all
  then show ?thesis
    using assms(1)
    by (auto simp: shrink_def ShrinkAt20Pct_def ShrinkNever_def ShrinkIfEmpty_def)
qed

lemma shrink_at_20_percent_cap:
  fixes d :: "('a::zero) deque"
  assumes "invar d" and "Shrink d = ShrinkAt20Pct" and "len d * 5 < 2 ^ 63"
  shows "\<exists>d'. shrink d = Inr d'
           \<and> Cap d' = (if len d \<le> Minsize d \<and> Cap d \<noteq> Minsize d \<and> len d * 5 \<le> Cap d
                        then Minsize d else Cap d)"
proof -
  have nn: "0 \<le> len d" using assms(1) by (simp add: invar_def)
  note s = shrink_at_20_percent [OF assms(2) nn assms(3)]
  show ?thesis
  proof (cases "len d \<le> Minsize d \<and> cap (dat d) \<noteq> Minsize d \<and> len d * 5 \<le> cap (dat d)")
    case True
    then have le: "len d \<le> Minsize d" by simp
    from resize_invar [OF assms(1) le] obtain d' where
      "resize d (Minsize d) = Inr d'" "cap (dat d') = Minsize d"
      by blast
    with s True show ?thesis by (auto simp: Cap_def)
  next
    case False
    with s show ?thesis by (auto simp: Cap_def)
  qed
qed

section \<open>The claims\<close>

text \<open>
  Claim C1. With \<open>Minsize = 4\<close>: push four values, shift two, push four more so that the
  deque grows while the occupied run wraps (\<open>head = 2\<close> is greater than \<open>tail = 0\<close>
  when \<open>Push\<close> of three values finds the buffer too small, and \<open>head = 2\<close>,
  \<open>tail = 1\<close> when the third of four single pushes does), then drain by \<open>Shift\<close>:
  the six remaining values come out in the order they were pushed, and the next
  \<open>Shift\<close> reports the empty deque.
\<close>

theorem C1_grow_while_wrapped_keeps_order:
  fixes a b c e f g h i :: "'a::zero"
  shows
    "Push (new_deque 4 ShrinkNever) [a, b, c, e]
       = Inr \<lparr>Minsize = 4, Shrink = 0, head = 0, tail = 3, len = 4, dat = [a, b, c, e]\<rparr>
     \<and> repeat_op Shift 2
         \<lparr>Minsize = 4, Shrink = 0, head = 0, tail = 3, len = 4, dat = [a, b, c, e]\<rparr>
       = Inr ([(a, True), (b, True)],
           \<lparr>Minsize = 4, Shrink = 0, head = 2, tail = 3, len = 2, dat = [a, b, c, e]\<rparr>)
     \<and> Push \<lparr>Minsize = 4, Shrink = 0, head = 2, tail = 3, len = 2, dat = [a, b, c, e]\<rparr> [f]
       = Inr \<lparr>Minsize = 4, Shrink = 0, head = 2, tail = 0, len = 3, dat = [f, b, c, e]\<rparr>
     \<and> Push \<lparr>Minsize = 4, Shrink = 0, head = 2, tail = 0, len = 3, dat = [f, b, c, e]\<rparr>
         [g, h, i]
       = Inr \<lparr>Minsize = 4, Shrink = 0, head = 0, tail = 5, len = 6,
           dat = [c, e, f, g, h, i, 0, 0]\<rparr>
     \<and> repeat_op Shift 7
         \<lparr>Minsize = 4, Shrink = 0, head = 0, tail = 5, len = 6,
           dat = [c, e, f, g, h, i, 0, 0]\<rparr>
       = Inr ([(c, True), (e, True), (f, True), (g, True), (h, True), (i, True), (0, False)],
           \<lparr>Minsize = 4, Shrink = 0, head = 6, tail = 5, len = 0,
             dat = [c, e, f, g, h, i, 0, 0]\<rparr>)
     \<and> one_at_a_time Push
         \<lparr>Minsize = 4, Shrink = 0, head = 2, tail = 3, len = 2, dat = [a, b, c, e]\<rparr>
         [f, g, h, i]
       = Inr ([4, 4, 8, 8],
           \<lparr>Minsize = 4, Shrink = 0, head = 0, tail = 5, len = 6,
             dat = [c, e, f, g, h, i, 0, 0]\<rparr>)
     \<and> one_at_a_time Push
         \<lparr>Minsize = 4, Shrink = 0, head = 2, tail = 3, len = 2, dat = [a, b, c, e]\<rparr>
         [f, g]
       = Inr ([4, 4],
           \<lparr>Minsize = 4, Shrink = 0, head = 2, tail = 1, len = 4, dat = [f, g, c, e]\<rparr>)"
  by (simp add: go_defs grow_loop.simps Let_def eval_nat_numeral)

text \<open>
  Claim C2, as amended. On every empty deque that satisfies the invariant, whatever its
  capacity, minimum size and shrink policy, and for every sequence \<open>v1..vn\<close> of at most
  \<open>2 ^ 62\<close> values passed in storage that the buffer of the deque does not share (listed
  values, in one call or one value per call): \<open>Push\<close> followed by \<open>n\<close> calls of \<open>Shift\<close>
  returns \<open>v1..vn\<close> in this order, each with \<open>ok = true\<close>; and \<open>Unshift\<close> followed by
  \<open>n\<close> calls of \<open>Pop\<close> returns \<open>v1..vn\<close> in this order, each with \<open>ok = true\<close>.
  No call panics, and the deque is empty afterwards. (The claim as stated, for every
  sequence of values, fails when the argument is a slice that shares the buffer, such as
  the slice that \<open>ToSlice\<close> returned: the loop over the argument reads slots that the
  earlier iterations have overwritten.)
\<close>

theorem C2_fifo_across_ends:
  fixes d :: "('a::zero) deque"
  assumes "invar d" and "len d = 0" and "int (length vs) \<le> 2 ^ 62"
  shows "(\<exists>d1 d2. Push d vs = Inr d1
            \<and> repeat_op Shift (length vs) d1 = Inr (map (\<lambda>v. (v, True)) vs, d2) \<and> Len d2 = 0)
       \<and> (\<exists>cs d1 d2. one_at_a_time Push d vs = Inr (cs, d1)
            \<and> repeat_op Shift (length vs) d1 = Inr (map (\<lambda>v. (v, True)) vs, d2) \<and> Len d2 = 0)
       \<and> (\<exists>d1 d2. Unshift d vs = Inr d1
            \<and> repeat_op Pop (length vs) d1 = Inr (map (\<lambda>v. (v, True)) vs, d2) \<and> Len d2 = 0)
       \<and> (\<exists>cs d1 d2. one_at_a_time Unshift d vs = Inr (cs, d1)
            \<and> repeat_op Pop (length vs) d1 = Inr (map (\<lambda>v. (v, True)) vs, d2) \<and> Len d2 = 0)"
proof -
  have e: "contents d = []" using assms by (simp add: contents_def)
  have b: "len d + int (length vs) \<le> 2 ^ 62" using assms by simp
  have a: "\<exists>d1 d2. Push d vs = Inr d1
      \<and> repeat_op Shift (length vs) d1 = Inr (map (\<lambda>v. (v, True)) vs, d2) \<and> Len d2 = 0"
  proof -
    from Push_invar [OF assms(1) b] e obtain d1 where
      d1: "Push d vs = Inr d1" "invar d1" "contents d1 = vs"
      by auto
    from drain_by_Shift [OF d1(2,3)] d1(1) show ?thesis by blast
  qed
  have b': "\<exists>cs d1 d2. one_at_a_time Push d vs = Inr (cs, d1)
      \<and> repeat_op Shift (length vs) d1 = Inr (map (\<lambda>v. (v, True)) vs, d2) \<and> Len d2 = 0"
  proof -
    from one_at_a_time_Push [OF assms(1) b] e obtain cs d1 where
      d1: "one_at_a_time Push d vs = Inr (cs, d1)" "invar d1" "contents d1 = vs"
      by auto
    from drain_by_Shift [OF d1(2,3)] d1(1) show ?thesis by blast
  qed
  have c: "\<exists>d1 d2. Unshift d vs = Inr d1
      \<and> repeat_op Pop (length vs) d1 = Inr (map (\<lambda>v. (v, True)) vs, d2) \<and> Len d2 = 0"
  proof -
    from Unshift_invar [OF assms(1) b] e obtain d1 where
      d1: "Unshift d vs = Inr d1" "invar d1" "contents d1 = rev vs"
      by auto
    from drain_by_Pop [OF d1(2,3)] d1(1) show ?thesis by blast
  qed
  have "\<exists>cs d1 d2. one_at_a_time Unshift d vs = Inr (cs, d1)
      \<and> repeat_op Pop (length vs) d1 = Inr (map (\<lambda>v. (v, True)) vs, d2) \<and> Len d2 = 0"
  proof -
    from one_at_a_time_Unshift [OF assms(1) b] e obtain cs d1 where
      d1: "one_at_a_time Unshift d vs = Inr (cs, d1)" "invar d1" "contents d1 = rev vs"
      by auto
    from drain_by_Pop [OF d1(2,3)] d1(1) show ?thesis by blast
  qed
  with a b' c show ?thesis by blast
qed

theorem C2_fifo_across_ends_witness:
  "invar \<lparr>Minsize = 2, Shrink = 2, head = 2, tail = 1, len = 0, dat = [7, 8, 9 :: int]\<rparr>
   \<and> len \<lparr>Minsize = 2, Shrink = 2, head = 2, tail = 1, len = 0, dat = [7, 8, 9 :: int]\<rparr> = 0
   \<and> int (length [1, 2, 3, 4 :: int]) \<le> 2 ^ 62
   \<and> (\<exists>d1 d2. Push \<lparr>Minsize = 2, Shrink = 2, head = 2, tail = 1, len = 0, dat = [7, 8, 9 :: int]\<rparr>
          [1, 2, 3, 4] = Inr d1
        \<and> repeat_op Shift 4 d1 = Inr ([(1, True), (2, True), (3, True), (4, True)], d2)
        \<and> Len d2 = 0)
   \<and> (\<exists>d1 d2. Unshift \<lparr>Minsize = 2, Shrink = 2, head = 2, tail = 1, len = 0, dat = [7, 8, 9 :: int]\<rparr>
          [1, 2, 3, 4] = Inr d1
        \<and> repeat_op Pop 4 d1 = Inr ([(1, True), (2, True), (3, True), (4, True)], d2)
        \<and> Len d2 = 0)"
proof -
  let ?d = "\<lparr>Minsize = 2, Shrink = 2, head = 2, tail = 1, len = 0, dat = [7, 8, 9 :: int]\<rparr>"
  have h1: "invar ?d" by (simp add: invar_def cap_def)
  have h2: "len ?d = 0" by simp
  have h3: "int (length [1, 2, 3, 4 :: int]) \<le> 2 ^ 62" by simp
  have l: "length [1, 2, 3, 4 :: int] = 4" by simp
  have m: "map (\<lambda>v. (v, True)) [1, 2, 3, 4 :: int]
      = [(1, True), (2, True), (3, True), (4, True)]"
    by simp
  note C2_fifo_across_ends [OF h1 h2 h3, unfolded l m]
  with h1 h2 h3 show ?thesis by blast
qed

theorem C2_shared_argument_counterexample:
  "Push (new_deque 4 ShrinkNever) [1, 2, 3 :: int]
     = Inr \<lparr>Minsize = 4, Shrink = 0, head = 0, tail = 2, len = 3, dat = [1, 2, 3, 0]\<rparr>
   \<and> ToSlice \<lparr>Minsize = 4, Shrink = 0, head = 0, tail = 2, len = 3, dat = [1, 2, 3, 0 :: int]\<rparr>
     = Inr ([1, 2, 3],
         \<lparr>Minsize = 4, Shrink = 0, head = 0, tail = 2, len = 3, dat = [1, 2, 3, 0]\<rparr>)
   \<and> repeat_op Shift 3
       \<lparr>Minsize = 4, Shrink = 0, head = 0, tail = 2, len = 3, dat = [1, 2, 3, 0 :: int]\<rparr>
     = Inr ([(1, True), (2, True), (3, True)],
         \<lparr>Minsize = 4, Shrink = 0, head = 3, tail = 2, len = 0, dat = [1, 2, 3, 0]\<rparr>)
   \<and> invar \<lparr>Minsize = 4, Shrink = 0, head = 3, tail = 2, len = 0, dat = [1, 2, 3, 0 :: int]\<rparr>
   \<and> Len \<lparr>Minsize = 4, Shrink = 0, head = 3, tail = 2, len = 0, dat = [1, 2, 3, 0 :: int]\<rparr> = 0
   \<and> map (read_slot [1, 2, 3, 0 :: int]) (buffer_view 0 3) = [Inr 1, Inr 2, Inr 3]
   \<and> Unshift_slice
       \<lparr>Minsize = 4, Shrink = 0, head = 3, tail = 2, len = 0, dat = [1, 2, 3, 0 :: int]\<rparr>
       (buffer_view 0 3)
     = Inr \<lparr>Minsize = 4, Shrink = 0, head = 0, tail = 2, len = 3, dat = [1, 2, 1, 0]\<rparr>
   \<and> repeat_op Pop 3
       \<lparr>Minsize = 4, Shrink = 0, head = 0, tail = 2, len = 3, dat = [1, 2, 1, 0 :: int]\<rparr>
     = Inr ([(1, True), (2, True), (1, True)],
         \<lparr>Minsize = 4, Shrink = 0, head = 0, tail = 3, len = 0, dat = [1, 2, 1, 0]\<rparr>)
   \<and> [(1, True), (2, True), (1, True)] \<noteq> map (\<lambda>v. (v, True)) [1, 2, 3 :: int]"
  by (simp add: go_defs grow_loop.simps buffer_view_def invar_def Let_def eval_nat_numeral
      upt_conv_Cons)

text \<open>
  Claim C3. With \<open>Minsize = 2\<close> and policy \<open>ShrinkNever\<close>, five single pushes onto the
  empty deque leave the capacities 2, 2, 4, 4, 8. Under policy \<open>ShrinkNever\<close>, on every
  deque that satisfies the invariant, every sequence of \<open>Pop\<close> and \<open>Shift\<close> calls returns
  and leaves the capacity as it was.
\<close>

theorem C3_doubling_growth_and_never_shrink:
  fixes a b c e f :: "'a::zero" and d :: "'a deque"
  shows "one_at_a_time Push (new_deque 2 ShrinkNever) [a, b, c, e, f]
       = Inr ([2, 2, 4, 4, 8],
           \<lparr>Minsize = 2, Shrink = 0, head = 0, tail = 4, len = 5,
             dat = [a, b, c, e, f, 0, 0, 0]\<rparr>)
     \<and> (invar d \<and> Shrink d = ShrinkNever \<and> list_all is_removal ops
          \<longrightarrow> (\<exists>d'. exec d ops = Inr d' \<and> Cap d' = Cap d))"
proof -
  have "one_at_a_time Push (new_deque 2 ShrinkNever) [a, b, c, e, f]
       = Inr ([2, 2, 4, 4, 8],
           \<lparr>Minsize = 2, Shrink = 0, head = 0, tail = 4, len = 5,
             dat = [a, b, c, e, f, 0, 0, 0]\<rparr>)"
    by (simp add: go_defs grow_loop.simps Let_def eval_nat_numeral)
  moreover have "\<exists>d'. exec d ops = Inr d' \<and> Cap d' = Cap d"
    if "invar d" and "Shrink d = ShrinkNever" and "list_all is_removal ops"
    using exec_removals_never [OF that] by (auto simp: Cap_def)
  ultimately show ?thesis by blast
qed

theorem C3_doubling_growth_and_never_shrink_witness:
  "invar \<lparr>Minsize = 2, Shrink = 0, head = 0, tail = 4, len = 5,
       dat = [1, 2, 3, 4, 5, 0, 0, 0 :: int]\<rparr>
   \<and> Shrink \<lparr>Minsize = 2, Shrink = 0, head = 0, tail = 4, len = 5,
       dat = [1, 2, 3, 4, 5, 0, 0, 0 :: int]\<rparr> = ShrinkNever
   \<and> list_all is_removal [OpShift, OpPop, OpPop, OpShift, OpShift, OpPop :: int deque_op]
   \<and> (\<exists>d'. exec \<lparr>Minsize = 2, Shrink = 0, head = 0, tail = 4, len = 5,
            dat = [1, 2, 3, 4, 5, 0, 0, 0 :: int]\<rparr>
          [OpShift, OpPop, OpPop, OpShift, OpShift, OpPop] = Inr d' \<and> Cap d' = 8)"
proof -
  let ?d = "\<lparr>Minsize = 2, Shrink = 0, head = 0, tail = 4, len = 5,
       dat = [1, 2, 3, 4, 5, 0, 0, 0 :: int]\<rparr>"
  let ?ops = "[OpShift, OpPop, OpPop, OpShift, OpShift, OpPop :: int deque_op]"
  have h1: "invar ?d" by (simp add: invar_def cap_def)
  have h2: "Shrink ?d = ShrinkNever" by (simp add: ShrinkNever_def)
  have h3: "list_all is_removal ?ops" by simp
  have c: "Cap ?d = 8" by (simp add: Cap_def cap_def)
  from C3_doubling_growth_and_never_shrink [of _ _ _ _ _ ?d ?ops] h1 h2 h3
  have "\<exists>d'. exec ?d ?ops = Inr d' \<and> Cap d' = Cap ?d" by blast
  with h1 h2 h3 show ?thesis unfolding c by blast
qed

text \<open>
  Claim C4. With \<open>Minsize = 2\<close> and policy \<open>ShrinkAt20Pct\<close>, after growing to capacity 8
  with five elements, the removals (by \<open>Shift\<close>, and likewise by \<open>Pop\<close>) that leave 4, 3
  and 2 elements keep capacity 8, and the removal that leaves 1 element shrinks the buffer
  to capacity 2. In general, under this policy, on every deque that satisfies the
  invariant and whose length times 5 is below \<open>2 ^ 63\<close> (so that \<open>d.len*5\<close> does not wrap
  around), \<open>shrink\<close> returns, and it reallocates to capacity \<open>Minsize\<close> exactly when
  \<open>len <= Minsize\<close>, \<open>cap != Minsize\<close> and \<open>len * 5 <= cap\<close> (the comparison is
  inclusive), and leaves the capacity as it was otherwise.
\<close>

theorem C4_shrink_at_20_percent:
  fixes a b c e f :: "'a::zero" and d :: "'a deque"
  shows "Push (new_deque 2 ShrinkAt20Pct) [a, b]
       = Inr \<lparr>Minsize = 2, Shrink = 2, head = 0, tail = 1, len = 2, dat = [a, b]\<rparr>
     \<and> Push \<lparr>Minsize = 2, Shrink = 2, head = 0, tail = 1, len = 2, dat = [a, b]\<rparr> [c, e]
       = Inr \<lparr>Minsize = 2, Shrink = 2, head = 0, tail = 3, len = 4, dat = [a, b, c, e]\<rparr>
     \<and> Push \<lparr>Minsize = 2, Shrink = 2, head = 0, tail = 3, len = 4, dat = [a, b, c, e]\<rparr> [f]
       = Inr \<lparr>Minsize = 2, Shrink = 2, head = 0, tail = 4, len = 5,
           dat = [a, b, c, e, f, 0, 0, 0]\<rparr>
     \<and> Shift \<lparr>Minsize = 2, Shrink = 2, head = 0, tail = 4, len = 5,
           dat = [a, b, c, e, f, 0, 0, 0]\<rparr>
       = Inr ((a, True), \<lparr>Minsize = 2, Shrink = 2, head = 1, tail = 4, len = 4,
           dat = [a, b, c, e, f, 0, 0, 0]\<rparr>)
     \<and> Shift \<lparr>Minsize = 2, Shrink = 2, head = 1, tail = 4, len = 4,
           dat = [a, b, c, e, f, 0, 0, 0]\<rparr>
       = Inr ((b, True), \<lparr>Minsize = 2, Shrink = 2, head = 2, tail = 4, len = 3,
           dat = [a, b, c, e, f, 0, 0, 0]\<rparr>)
     \<and> Shift \<lparr>Minsize = 2, Shrink = 2, head = 2, tail = 4, len = 3,
           dat = [a, b, c, e, f, 0, 0, 0]\<rparr>
       = Inr ((c, True), \<lparr>Minsize = 2, Shrink = 2, head = 3, tail = 4, len = 2,
           dat = [a, b, c, e, f, 0, 0, 0]\<rparr>)
     \<and> Shift \<lparr>Minsize = 2, Shrink = 2, head = 3, tail = 4, len = 2,
           dat = [a, b, c, e, f, 0, 0, 0]\<rparr>
       = Inr ((e, True), \<lparr>Minsize = 2, Shrink = 2, head = 0, tail = 0, len = 1, dat = [f, 0]\<rparr>)
     \<and> Pop \<lparr>Minsize = 2, Shrink = 2, head = 0, tail = 4, len = 5,
           dat = [a, b, c, e, f, 0, 0, 0]\<rparr>
       = Inr ((f, True), \<lparr>Minsize = 2, Shrink = 2, head = 0, tail = 3, len = 4,
           dat = [a, b, c, e, f, 0, 0, 0]\<rparr>)
     \<and> Pop \<lparr>Minsize = 2, Shrink = 2, head = 0, tail = 3, len = 4,
           dat = [a, b, c, e, f, 0, 0, 0]\<rparr>
       = Inr ((e, True), \<lparr>Minsize = 2, Shrink = 2, head = 0, tail = 2, len = 3,
           dat = [a, b, c, e, f, 0, 0, 0]\<rparr>)
     \<and> Pop \<lparr>Minsize = 2, Shrink = 2, head = 0, tail = 2, len = 3,
           dat = [a, b, c, e, f, 0, 0, 0]\<rparr>
       = Inr ((c, True), \<lparr>Minsize = 2, Shrink = 2, head = 0, tail = 1, len = 2,
           dat = [a, b, c, e, f, 0, 0, 0]\<rparr>)
     \<and> Pop \<lparr>Minsize = 2, Shrink = 2, head = 0, tail = 1, len = 2,
           dat = [a, b, c, e, f, 0, 0, 0]\<rparr>
       = Inr ((b, True), \<lparr>Minsize = 2, Shrink = 2, head = 0, tail = 0, len = 1, dat = [a, 0]\<rparr>)
     \<and> (invar d \<and> Shrink d = ShrinkAt20Pct \<and> len d * 5 < 2 ^ 63 \<longrightarrow>
          shrink d =
            (if len d \<le> Minsize d \<and> cap (dat d) \<noteq> Minsize d \<and> len d * 5 \<le> cap (dat d)
             then resize d (Minsize d) else Inr d)
          \<and> (\<exists>d'. shrink d = Inr d'
                \<and> Cap d' = (if len d \<le> Minsize d \<and> Cap d \<noteq> Minsize d \<and> len d * 5 \<le> Cap d
                             then Minsize d else Cap d)))"
proof -
  have "shrink d =
        (if len d \<le> Minsize d \<and> cap (dat d) \<noteq> Minsize d \<and> len d * 5 \<le> cap (dat d)
         then resize d (Minsize d) else Inr d)
      \<and> (\<exists>d'. shrink d = Inr d'
            \<and> Cap d' = (if len d \<le> Minsize d \<and> Cap d \<noteq> Minsize d \<and> len d * 5 \<le> Cap d
                         then Minsize d else Cap d))"
    if "invar d" and "Shrink d = ShrinkAt20Pct" and "len d * 5 < 2 ^ 63"
  proof -
    have "0 \<le> len d" using that(1) by (simp add: invar_def)
    from shrink_at_20_percent [OF that(2) this that(3)] shrink_at_20_percent_cap [OF that]
    show ?thesis by blast
  qed
  then have g: "invar d \<and> Shrink d = ShrinkAt20Pct \<and> len d * 5 < 2 ^ 63 \<longrightarrow>
      shrink d =
        (if len d \<le> Minsize d \<and> cap (dat d) \<noteq> Minsize d \<and> len d * 5 \<le> cap (dat d)
         then resize d (Minsize d) else Inr d)
      \<and> (\<exists>d'. shrink d = Inr d'
            \<and> Cap d' = (if len d \<le> Minsize d \<and> Cap d \<noteq> Minsize d \<and> len d * 5 \<le> Cap d
                         then Minsize d else Cap d))"
    by blast
  have "Push (new_deque 2 ShrinkAt20Pct) [a, b]
       = Inr \<lparr>Minsize = 2, Shrink = 2, head = 0, tail = 1, len = 2, dat = [a, b]\<rparr>
     \<and> Push \<lparr>Minsize = 2, Shrink = 2, head = 0, tail = 1, len = 2, dat = [a, b]\<rparr> [c, e]
       = Inr \<lparr>Minsize = 2, Shrink = 2, head = 0, tail = 3, len = 4, dat = [a, b, c, e]\<rparr>
     \<and> Push \<lparr>Minsize = 2, Shrink = 2, head = 0, tail = 3, len = 4, dat = [a, b, c, e]\<rparr> [f]
       = Inr \<lparr>Minsize = 2, Shrink = 2, head = 0, tail = 4, len = 5,
           dat = [a, b, c, e, f, 0, 0, 0]\<rparr>"
    by (simp add: go_defs grow_loop.simps Let_def eval_nat_numeral)
  moreover have "Shift \<lparr>Minsize = 2, Shrink = 2, head = 0, tail = 4, len = 5,
           dat = [a, b, c, e, f, 0, 0, 0]\<rparr>
       = Inr ((a, True), \<lparr>Minsize = 2, Shrink = 2, head = 1, tail = 4, len = 4,
           dat = [a, b, c, e, f, 0, 0, 0]\<rparr>)
     \<and> Shift \<lparr>Minsize = 2, Shrink = 2, head = 1, tail = 4, len = 4,
           dat = [a, b, c, e, f, 0, 0, 0]\<rparr>
       = Inr ((b, True), \<lparr>Minsize = 2, Shrink = 2, head = 2, tail = 4, len = 3,
           dat = [a, b, c, e, f, 0, 0, 0]\<rparr>)
     \<and> Shift \<lparr>Minsize = 2, Shrink = 2, head = 2, tail = 4, len = 3,
           dat = [a, b, c, e, f, 0, 0, 0]\<rparr>
       = Inr ((c, True), \<lparr>Minsize = 2, Shrink = 2, head = 3, tail = 4, len = 2,
           dat = [a, b, c, e, f, 0, 0, 0]\<rparr>)
     \<and> Shift \<lparr>Minsize = 2, Shrink = 2, head = 3, tail = 4, len = 2,
           dat = [a, b, c, e, f, 0, 0, 0]\<rparr>
       = Inr ((e, True), \<lparr>Minsize = 2, Shrink = 2, head = 0, tail = 0, len = 1, dat = [f, 0]\<rparr>)"
    by (simp add: go_defs Let_def eval_nat_numeral)
  moreover have "Pop \<lparr>Minsize = 2, Shrink = 2, head = 0, tail = 4, len = 5,
           dat = [a, b, c, e, f, 0, 0, 0]\<rparr>
       = Inr ((f, True), \<lparr>Minsize = 2, Shrink = 2, head = 0, tail = 3, len = 4,
           dat = [a, b, c, e, f, 0, 0, 0]\<rparr>)
     \<and> Pop \<lparr>Minsize = 2, Shrink = 2, head = 0, tail = 3, len = 4,
           dat = [a, b, c, e, f, 0, 0, 0]\<rparr>
       = Inr ((e, True), \<lparr>Minsize = 2, Shrink = 2, head = 0, tail = 2, len = 3,
           dat = [a, b, c, e, f, 0, 0, 0]\<rparr>)
     \<and> Pop \<lparr>Minsize = 2, Shrink = 2, head = 0, tail = 2, len = 3,
           dat = [a, b, c, e, f, 0, 0, 0]\<rparr>
       = Inr ((c, True), \<lparr>Minsize = 2, Shrink = 2, head = 0, tail = 1, len = 2,
           dat = [a, b, c, e, f, 0, 0, 0]\<rparr>)
     \<and> Pop \<lparr>Minsize = 2, Shrink = 2, head = 0, tail = 1, len = 2,
           dat = [a, b, c, e, f, 0, 0, 0]\<rparr>
       = Inr ((b, True), \<lparr>Minsize = 2, Shrink = 2, head = 0, tail = 0, len = 1, dat = [a, 0]\<rparr>)"
    by (simp add: go_defs Let_def eval_nat_numeral)
  ultimately show ?thesis using g by blast
qed

theorem C4_shrink_at_20_percent_witness:
  "invar \<lparr>Minsize = 2, Shrink = 2, head = 3, tail = 3, len = 1, dat = [0, 0, 0, 7, 0 :: int]\<rparr>
   \<and> Shrink \<lparr>Minsize = 2, Shrink = 2, head = 3, tail = 3, len = 1, dat = [0, 0, 0, 7, 0 :: int]\<rparr>
     = ShrinkAt20Pct
   \<and> len \<lparr>Minsize = 2, Shrink = 2, head = 3, tail = 3, len = 1, dat = [0, 0, 0, 7, 0 :: int]\<rparr>
       * 5 < 2 ^ 63
   \<and> shrink \<lparr>Minsize = 2, Shrink = 2, head = 3, tail = 3, len = 1, dat = [0, 0, 0, 7, 0 :: int]\<rparr>
     = Inr \<lparr>Minsize = 2, Shrink = 2, head = 0, tail = 0, len = 1, dat = [7, 0]\<rparr>
   \<and> invar \<lparr>Minsize = 2, Shrink = 2, head = 3, tail = 3, len = 1, dat = [0, 0, 0, 7 :: int]\<rparr>
   \<and> Shrink \<lparr>Minsize = 2, Shrink = 2, head = 3, tail = 3, len = 1, dat = [0, 0, 0, 7 :: int]\<rparr>
     = ShrinkAt20Pct
   \<and> len \<lparr>Minsize = 2, Shrink = 2, head = 3, tail = 3, len = 1, dat = [0, 0, 0, 7 :: int]\<rparr>
       * 5 < 2 ^ 63
   \<and> shrink \<lparr>Minsize = 2, Shrink = 2, head = 3, tail = 3, len = 1, dat = [0, 0, 0, 7 :: int]\<rparr>
     = Inr \<lparr>Minsize = 2, Shrink = 2, head = 3, tail = 3, len = 1, dat = [0, 0, 0, 7]\<rparr>"
proof -
  let ?d = "\<lparr>Minsize = 2, Shrink = 2, head = 3, tail = 3, len = 1, dat = [0, 0, 0, 7, 0 :: int]\<rparr>"
  let ?e = "\<lparr>Minsize = 2, Shrink = 2, head = 3, tail = 3, len = 1, dat = [0, 0, 0, 7 :: int]\<rparr>"
  have i: "invar ?d" "invar ?e" by (simp_all add: invar_def cap_def)
  have h: "Shrink ?d = ShrinkAt20Pct" "Shrink ?e = ShrinkAt20Pct"
    by (simp_all add: ShrinkAt20Pct_def)
  have b: "len ?d * 5 < 2 ^ 63" "len ?e * 5 < 2 ^ 63" by simp_all
  have r: "resize ?d 2 = Inr \<lparr>Minsize = 2, Shrink = 2, head = 0, tail = 0, len = 1, dat = [7, 0]\<rparr>"
    by (simp add: go_defs Let_def eval_nat_numeral)
  from C4_shrink_at_20_percent [of _ _ _ _ _ ?d] i(1) h(1) b(1)
  have "shrink ?d =
      (if len ?d \<le> Minsize ?d \<and> cap (dat ?d) \<noteq> Minsize ?d \<and> len ?d * 5 \<le> cap (dat ?d)
       then resize ?d (Minsize ?d) else Inr ?d)"
    by blast
  then have sd: "shrink ?d = resize ?d 2" by (simp add: cap_def)
  from C4_shrink_at_20_percent [of _ _ _ _ _ ?e] i(2) h(2) b(2)
  have "shrink ?e =
      (if len ?e \<le> Minsize ?e \<and> cap (dat ?e) \<noteq> Minsize ?e \<and> len ?e * 5 \<le> cap (dat ?e)
       then resize ?e (Minsize ?e) else Inr ?e)"
    by blast
  then have se: "shrink ?e = Inr ?e" by (simp add: cap_def)
  show ?thesis unfolding sd se r using i h b by blast
qed

text \<open>
  Claim C5, as amended. On every deque that satisfies the invariant, under every shrink
  policy, \<open>Pop\<close> and \<open>Shift\<close> return, and when the shrink step reallocates, the new
  capacity is exactly \<open>Minsize\<close>; it is less than or equal to the capacity before the call
  whenever \<open>Minsize\<close> does not exceed that capacity. (The claim as stated, for every state,
  fails on a buffer adopted by \<open>WrapSlice\<close> that is smaller than \<open>Minsize\<close>: there the
  shrink step allocates the larger buffer of \<open>Minsize\<close> slots.)
\<close>

theorem C5_shrink_reallocates_to_minsize:
  fixes d :: "('a::zero) deque"
  assumes "invar d"
  shows "(\<exists>r d'. Pop d = Inr (r, d')
            \<and> (Cap d' \<noteq> Cap d \<longrightarrow> Cap d' = Minsize d)
            \<and> (Minsize d \<le> Cap d \<longrightarrow> Cap d' \<le> Cap d))
       \<and> (\<exists>r d'. Shift d = Inr (r, d')
            \<and> (Cap d' \<noteq> Cap d \<longrightarrow> Cap d' = Minsize d)
            \<and> (Minsize d \<le> Cap d \<longrightarrow> Cap d' \<le> Cap d))"
proof -
  from Pop_returns [OF assms] obtain r d' where p: "Pop d = Inr (r, d')" by blast
  from Shift_returns [OF assms] obtain q e' where s: "Shift d = Inr (q, e')" by blast
  from Pop_cap [OF p] Shift_cap [OF s] p s show ?thesis by auto
qed

theorem C5_shrink_reallocates_to_minsize_witness:
  "invar \<lparr>Minsize = 2, Shrink = 2, head = 3, tail = 4, len = 2,
       dat = [1, 2, 3, 4, 5, 0, 0, 0 :: int]\<rparr>
   \<and> Pop \<lparr>Minsize = 2, Shrink = 2, head = 3, tail = 4, len = 2,
       dat = [1, 2, 3, 4, 5, 0, 0, 0 :: int]\<rparr>
     = Inr ((5, True), \<lparr>Minsize = 2, Shrink = 2, head = 0, tail = 0, len = 1, dat = [4, 0]\<rparr>)
   \<and> Cap \<lparr>Minsize = 2, Shrink = 2, head = 0, tail = 0, len = 1, dat = [4, 0 :: int]\<rparr> = 2
   \<and> Cap \<lparr>Minsize = 2, Shrink = 2, head = 3, tail = 4, len = 2,
       dat = [1, 2, 3, 4, 5, 0, 0, 0 :: int]\<rparr> = 8
   \<and> (\<exists>r d'. Shift \<lparr>Minsize = 2, Shrink = 2, head = 3, tail = 4, len = 2,
         dat = [1, 2, 3, 4, 5, 0, 0, 0 :: int]\<rparr> = Inr (r, d') \<and> Cap d' \<le> 8)"
proof -
  let ?d = "\<lparr>Minsize = 2, Shrink = 2, head = 3, tail = 4, len = 2,
       dat = [1, 2, 3, 4, 5, 0, 0, 0 :: int]\<rparr>"
  have h: "invar ?d" by (simp add: invar_def cap_def)
  have c: "Cap ?d = 8" "Minsize ?d \<le> Cap ?d" by (simp_all add: Cap_def cap_def)
  have p: "Pop ?d
      = Inr ((5, True), \<lparr>Minsize = 2, Shrink = 2, head = 0, tail = 0, len = 1, dat = [4, 0]\<rparr>)"
    by (simp add: go_defs Let_def eval_nat_numeral)
  have c2: "Cap \<lparr>Minsize = 2, Shrink = 2, head = 0, tail = 0, len = 1, dat = [4, 0 :: int]\<rparr> = 2"
    by (simp add: Cap_def cap_def)
  from C5_shrink_reallocates_to_minsize [OF h] c(2)
  have "\<exists>r d'. Shift ?d = Inr (r, d') \<and> Cap d' \<le> Cap ?d" by blast
  then show ?thesis unfolding c(1) using h p c2 c(1) by blast
qed

theorem C5_adopted_buffer_below_minsize_counterexample:
  "Pop (WrapSlice (new_deque 32 ShrinkIfEmpty) [7 :: int] [])
     = Inr ((7, True),
         \<lparr>Minsize = 32, Shrink = 1, head = 0, tail = 31, len = 0, dat = replicate 32 0\<rparr>)
   \<and> \<not> Cap \<lparr>Minsize = 32, Shrink = 1, head = 0, tail = 31, len = 0,
          dat = replicate 32 (0 :: int)\<rparr>
        \<le> Cap (WrapSlice (new_deque 32 ShrinkIfEmpty) [7 :: int] [])"
  by (simp add: go_defs Let_def)

text \<open>
  Claim C6, as amended. Every sequence of calls of the public methods (\<open>Push\<close> and
  \<open>Unshift\<close> with listed values) that hands at most \<open>2 ^ 62\<close> values to a deque created
  as \<open>Deque[T]{Minsize: m, Shrink: s}\<close> returns, and afterwards the capacity is 0 (nothing
  allocated, or shrunk to a \<open>Minsize\<close> of 0), or a base doubled zero or more times, where
  the base is the effective minimum size (\<open>m\<close>, or 32 when \<open>m\<close> is not positive) or the
  capacity of a buffer that the sequence adopted by \<open>WrapSlice\<close>. So the capacity is 0 or
  a power of two whenever the effective minimum size and the adopted capacities are powers
  of two (or 0). (The claim as stated fails: with \<open>Minsize = 3\<close> four pushes leave
  capacity 6, which is neither a power of two nor \<open>Minsize\<close>. The bound on the number of
  values keeps \<open>d.len+add\<close> and \<open>size *= 2\<close> in \<open>grow\<close> from wrapping around.)
\<close>

theorem C6_capacity_is_a_doubled_base:
  fixes ops :: "('a::zero) deque_op list"
  assumes "volume ops \<le> 2 ^ 62"
  shows "\<exists>d'. exec (new_deque m s) ops = Inr d'
           \<and> cap_from_base m (adopted ops) (Cap d')
           \<and> (is_pow2 (effective_minsize m) \<and> list_all (\<lambda>b. b = 0 \<or> is_pow2 b) (adopted ops)
                \<longrightarrow> Cap d' = 0 \<or> is_pow2 (Cap d'))"
proof -
  have "len (new_deque m s :: 'a deque) + volume ops \<le> 2 ^ 62"
    using assms by (simp add: new_deque_def)
  from exec_cap_inv [OF new_deque_cap_inv this] obtain d' where
    d': "exec (new_deque m s) ops = Inr d'" "cap_inv m (adopted ops) d'"
    by auto
  then have c: "cap_from_base m (adopted ops) (Cap d')" by (simp add: cap_inv_def)
  with d'(1) cap_from_base_pow2 [OF c] show ?thesis by blast
qed

theorem C6_capacity_is_a_doubled_base_witness:
  "volume [OpWrapSlice [5, 6, 7, 8 :: int] [], OpShift, OpShift, OpPush [9], OpToSlice,
          OpPeek, OpPush [1, 2, 3], OpPop, OpCap] \<le> 2 ^ 62
   \<and> is_pow2 (effective_minsize 4)
   \<and> list_all (\<lambda>b. b = 0 \<or> is_pow2 b)
       (adopted [OpWrapSlice [5, 6, 7, 8 :: int] [], OpShift, OpShift, OpPush [9], OpToSlice,
          OpPeek, OpPush [1, 2, 3], OpPop, OpCap])
   \<and> exec (new_deque 4 ShrinkAt20Pct)
       [OpWrapSlice [5, 6, 7, 8 :: int] [], OpShift, OpShift, OpPush [9], OpToSlice,
          OpPeek, OpPush [1, 2, 3], OpPop, OpCap]
     = Inr \<lparr>Minsize = 4, Shrink = 2, head = 0, tail = 4, len = 5,
         dat = [7, 8, 9, 1, 2, 3, 0, 0]\<rparr>
   \<and> cap_from_base 4
       (adopted [OpWrapSlice [5, 6, 7, 8 :: int] [], OpShift, OpShift, OpPush [9], OpToSlice,
          OpPeek, OpPush [1, 2, 3], OpPop, OpCap])
       (Cap \<lparr>Minsize = 4, Shrink = 2, head = 0, tail = 4, len = 5,
          dat = [7, 8, 9, 1, 2, 3, 0, 0 :: int]\<rparr>)
   \<and> (Cap \<lparr>Minsize = 4, Shrink = 2, head = 0, tail = 4, len = 5,
          dat = [7, 8, 9, 1, 2, 3, 0, 0 :: int]\<rparr> = 0
        \<or> is_pow2 (Cap \<lparr>Minsize = 4, Shrink = 2, head = 0, tail = 4, len = 5,
          dat = [7, 8, 9, 1, 2, 3, 0, 0 :: int]\<rparr>))"
proof -
  let ?ops = "[OpWrapSlice [5, 6, 7, 8 :: int] [], OpShift, OpShift, OpPush [9], OpToSlice,
          OpPeek, OpPush [1, 2, 3], OpPop, OpCap]"
  let ?D = "\<lparr>Minsize = 4, Shrink = 2, head = 0, tail = 4, len = 5,
         dat = [7, 8, 9, 1, 2, 3, 0, 0 :: int]\<rparr>"
  have h0: "volume ?ops \<le> 2 ^ 62" by simp
  have h1: "is_pow2 (effective_minsize 4)"
    by (simp add: is_pow2_def effective_minsize_def doubled_from.simps)
  have h2: "list_all (\<lambda>b. b = 0 \<or> is_pow2 b) (adopted ?ops)"
    by (simp add: is_pow2_def cap_def doubled_from.simps)
  have e: "exec (new_deque 4 ShrinkAt20Pct) ?ops = Inr ?D"
    by (simp add: go_defs grow_loop.simps Let_def eval_nat_numeral)
  from C6_capacity_is_a_doubled_base [OF h0, of 4 ShrinkAt20Pct] h1 h2
  have "cap_from_base 4 (adopted ?ops) (Cap ?D) \<and> (Cap ?D = 0 \<or> is_pow2 (Cap ?D))"
    unfolding e by blast
  with h0 h1 h2 e show ?thesis by blast
qed

theorem C6_minsize_three_counterexample:
  "exec (new_deque 3 ShrinkNever) [OpPush [1, 2, 3, 4 :: int]]
     = Inr \<lparr>Minsize = 3, Shrink = 0, head = 0, tail = 3, len = 4, dat = [1, 2, 3, 4, 0, 0]\<rparr>
   \<and> \<not> pow2_or_minsize
         \<lparr>Minsize = 3, Shrink = 0, head = 0, tail = 3, len = 4, dat = [1, 2, 3, 4, 0, 0 :: int]\<rparr>"
  by (simp add: go_defs grow_loop.simps Let_def eval_nat_numeral pow2_or_minsize_def is_pow2_def
      doubled_from.simps)

text \<open>
  Claim C7. On every deque that satisfies the invariant, wrapped or not, \<open>ToSlice\<close>
  returns the logical content (the \<open>len\<close> slots from \<open>head\<close> on, wrapping at the end of
  the buffer), which has exactly \<open>Len()\<close> elements; it leaves length, capacity and content
  as they were; draining the deque by \<open>Shift\<close> afterwards (or instead) yields the same
  sequence, each value with \<open>ok = true\<close>; and on an empty deque it returns the empty
  sequence and leaves the deque untouched.
\<close>

theorem C7_ToSlice_is_the_content:
  fixes d :: "('a::zero) deque"
  assumes "invar d"
  shows "\<exists>d'. ToSlice d = Inr (contents d, d')
           \<and> int (length (contents d)) = Len d
           \<and> Len d' = Len d \<and> Cap d' = Cap d \<and> contents d' = contents d
           \<and> (\<exists>d2. repeat_op Shift (length (contents d)) d'
                  = Inr (map (\<lambda>v. (v, True)) (contents d), d2) \<and> Len d2 = 0)
           \<and> (\<exists>d3. repeat_op Shift (length (contents d)) d
                  = Inr (map (\<lambda>v. (v, True)) (contents d), d3) \<and> Len d3 = 0)
           \<and> (Len d = 0 \<longrightarrow> ToSlice d = Inr ([], d))"
proof -
  from ToSlice_invar [OF assms] obtain d' where d': "ToSlice d = Inr (contents d, d')"
    "invar d'" "contents d' = contents d" "len d' = len d" "cap (dat d') = cap (dat d)"
    by blast
  from drain_by_Shift [OF d'(2,3)] obtain d2 where
    d2: "repeat_op Shift (length (contents d)) d'
      = Inr (map (\<lambda>v. (v, True)) (contents d), d2)" "Len d2 = 0"
    by blast
  from drain_by_Shift [OF assms refl] obtain d3 where
    d3: "repeat_op Shift (length (contents d)) d
      = Inr (map (\<lambda>v. (v, True)) (contents d), d3)" "Len d3 = 0"
    by blast
  have "Len d = 0 \<longrightarrow> ToSlice d = Inr ([], d)" by (simp add: Len_def ToSlice_def)
  moreover have "int (length (contents d)) = Len d"
    using invar_len [OF assms] by (simp add: Len_def)
  ultimately show ?thesis using d' d2 d3 by (auto simp: Len_def Cap_def)
qed

theorem C7_ToSlice_is_the_content_witness:
  "invar \<lparr>Minsize = 0, Shrink = 0, head = 2, tail = 0, len = 3, dat = [9, 6, 7, 8 :: int]\<rparr>
   \<and> contents \<lparr>Minsize = 0, Shrink = 0, head = 2, tail = 0, len = 3, dat = [9, 6, 7, 8 :: int]\<rparr>
     = [7, 8, 9]
   \<and> ToSlice \<lparr>Minsize = 0, Shrink = 0, head = 2, tail = 0, len = 3, dat = [9, 6, 7, 8 :: int]\<rparr>
     = Inr ([7, 8, 9],
         \<lparr>Minsize = 0, Shrink = 0, head = 0, tail = 2, len = 3, dat = [7, 8, 9, 0]\<rparr>)
   \<and> (\<exists>d2. repeat_op Shift 3
          \<lparr>Minsize = 0, Shrink = 0, head = 0, tail = 2, len = 3, dat = [7, 8, 9, 0 :: int]\<rparr>
        = Inr ([(7, True), (8, True), (9, True)], d2) \<and> Len d2 = 0)"
proof -
  let ?d = "\<lparr>Minsize = 0, Shrink = 0, head = 2, tail = 0, len = 3, dat = [9, 6, 7, 8 :: int]\<rparr>"
  let ?e = "\<lparr>Minsize = 0, Shrink = 0, head = 0, tail = 2, len = 3, dat = [7, 8, 9, 0 :: int]\<rparr>"
  have h: "invar ?d" by (simp add: invar_def cap_def)
  have c: "contents ?d = [7, 8, 9]"
    by code_simp
  have t: "ToSlice ?d = Inr ([7, 8, 9], ?e)"
    by (simp add: go_defs Let_def eval_nat_numeral)
  have l: "length [7, 8, 9 :: int] = 3" by simp
  have m: "map (\<lambda>v. (v, True)) [7, 8, 9 :: int] = [(7, True), (8, True), (9, True)]" by simp
  from C7_ToSlice_is_the_content [OF h]
  have "\<exists>d2. repeat_op Shift 3 ?e = Inr ([(7, True), (8, True), (9, True)], d2) \<and> Len d2 = 0"
    unfolding c t l m by blast
  with h c t show ?thesis by blast
qed

text \<open>
  Claim C8. On every deque of length 0, \<open>Pop\<close> and \<open>Shift\<close> return the zero value with
  \<open>ok = false\<close> and leave the whole deque as it was: length, capacity, cursors and
  buffer; no shrink step runs.
\<close>

theorem C8_removal_from_empty:
  fixes d :: "('a::zero) deque"
  assumes "len d = 0"
  shows "Pop d = Inr ((0, False), d) \<and> Shift d = Inr ((0, False), d)"
  using assms by (simp add: Pop_def Shift_def)

theorem C8_removal_from_empty_witness:
  "len (WrapSlice (new_deque 2 ShrinkIfEmpty) [] [1, 2, 3, 4 :: int]) = 0
   \<and> Pop (WrapSlice (new_deque 2 ShrinkIfEmpty) [] [1, 2, 3, 4 :: int])
     = Inr ((0, False), \<lparr>Minsize = 2, Shrink = 1, head = 0, tail = 3, len = 0, dat = [1, 2, 3, 4]\<rparr>)
   \<and> Shift (WrapSlice (new_deque 2 ShrinkIfEmpty) [] [1, 2, 3, 4 :: int])
     = Inr ((0, False), \<lparr>Minsize = 2, Shrink = 1, head = 0, tail = 3, len = 0, dat = [1, 2, 3, 4]\<rparr>)
   \<and> Cap (WrapSlice (new_deque 2 ShrinkIfEmpty) [] [1, 2, 3, 4 :: int]) = 4"
proof -
  let ?d = "WrapSlice (new_deque 2 ShrinkIfEmpty) [] [1, 2, 3, 4 :: int]"
  have e: "?d = \<lparr>Minsize = 2, Shrink = 1, head = 0, tail = 3, len = 0, dat = [1, 2, 3, 4]\<rparr>"
    by (simp add: WrapSlice_def new_deque_def ShrinkIfEmpty_def cap_def Let_def)
  then have h: "len ?d = 0" by simp
  have c: "Cap ?d = 4" unfolding e by (simp add: Cap_def cap_def)
  from C8_removal_from_empty [OF h] have "Pop ?d = Inr ((0, False), ?d)"
    and "Shift ?d = Inr ((0, False), ?d)"
    by blast+
  then show ?thesis using h c e by simp
qed

text \<open>
  Claim C9. \<open>Peek\<close> and \<open>PeekShift\<close> change nothing: whenever one of them returns, the
  deque it leaves is the deque it was given (length, capacity, cursors and buffer), so
  that calling it again returns the same pair. On every deque that satisfies the
  invariant they do return: the last, respectively the first, element of the content
  with \<open>ok = true\<close>, or the zero value with \<open>ok = false\<close> when the deque is empty.
\<close>

theorem C9_peeks_change_nothing:
  fixes d :: "('a::zero) deque"
  shows "(Peek d = Inr (r, d') \<longrightarrow> d' = d \<and> Peek d' = Inr (r, d'))
       \<and> (PeekShift d = Inr (q, e') \<longrightarrow> e' = d \<and> PeekShift e' = Inr (q, e'))
       \<and> (invar d \<longrightarrow>
            Peek d = Inr (if 0 < len d then (last (contents d), True) else (0, False), d)
            \<and> PeekShift d = Inr (if 0 < len d then (hd (contents d), True) else (0, False), d))"
proof -
  have "d' = d" if "Peek d = Inr (r, d')"
    using that by (auto simp: Peek_def split: if_splits sum.splits)
  moreover have "e' = d" if "PeekShift d = Inr (q, e')"
    using that by (auto simp: PeekShift_def split: if_splits sum.splits)
  ultimately show ?thesis using Peek_invar [of d] by auto
qed

theorem C9_peeks_change_nothing_witness:
  "invar \<lparr>Minsize = 0, Shrink = 2, head = 2, tail = 0, len = 3, dat = [9, 6, 7, 8 :: int]\<rparr>
   \<and> Peek \<lparr>Minsize = 0, Shrink = 2, head = 2, tail = 0, len = 3, dat = [9, 6, 7, 8 :: int]\<rparr>
     = Inr ((9, True),
         \<lparr>Minsize = 0, Shrink = 2, head = 2, tail = 0, len = 3, dat = [9, 6, 7, 8]\<rparr>)
   \<and> PeekShift \<lparr>Minsize = 0, Shrink = 2, head = 2, tail = 0, len = 3, dat = [9, 6, 7, 8 :: int]\<rparr>
     = Inr ((7, True),
         \<lparr>Minsize = 0, Shrink = 2, head = 2, tail = 0, len = 3, dat = [9, 6, 7, 8]\<rparr>)"
proof -
  let ?d = "\<lparr>Minsize = 0, Shrink = 2, head = 2, tail = 0, len = 3, dat = [9, 6, 7, 8 :: int]\<rparr>"
  have h: "invar ?d" by (simp add: invar_def cap_def)
  have c: "contents ?d = [7, 8, 9]" by code_simp
  from C9_peeks_change_nothing [of ?d] h
  have "Peek ?d = Inr (if 0 < len ?d then (last (contents ?d), True) else (0, False), ?d)"
    and "PeekShift ?d = Inr (if 0 < len ?d then (hd (contents ?d), True) else (0, False), ?d)"
    by blast+
  then have "Peek ?d = Inr ((9, True), ?d)" and "PeekShift ?d = Inr ((7, True), ?d)"
    unfolding c by simp_all
  with h show ?thesis by blast
qed

text \<open>
  Claim C10, as amended. Under policy \<open>ShrinkIfEmpty\<close> or \<open>ShrinkAt20Pct\<close>, on a deque
  that satisfies the invariant and holds one element (so its capacity is not 0): when
  \<open>Minsize\<close> is exactly 0, the \<open>Pop\<close> or \<open>Shift\<close> that empties the deque resizes the
  buffer to capacity 0 and so drops an adopted buffer; when \<open>Minsize\<close> is negative, the
  shrink step does nothing and the buffer is kept. (The claim as stated, for every
  \<open>Minsize\<close> that is not positive, fails for the negative ones: \<open>len > Minsize\<close> holds
  and \<open>shrink\<close> returns early.)
\<close>

theorem C10_shrink_to_zero_minsize:
  fixes d :: "('a::zero) deque"
  assumes "invar d" and "len d = 1"
    and "Shrink d = ShrinkIfEmpty \<or> Shrink d = ShrinkAt20Pct"
  shows "Cap d \<noteq> 0
       \<and> (Minsize d = 0 \<longrightarrow>
            Pop d = Inr ((last (contents d), True),
                      d\<lparr>len := 0, head := 0, tail := - 1, dat := []\<rparr>)
            \<and> Shift d = Inr ((hd (contents d), True),
                      d\<lparr>len := 0, head := 0, tail := - 1, dat := []\<rparr>))
       \<and> (Minsize d < 0 \<longrightarrow>
            (\<exists>d'. Pop d = Inr ((last (contents d), True), d') \<and> len d' = 0 \<and> dat d' = dat d)
            \<and> (\<exists>d'. Shift d = Inr ((hd (contents d), True), d') \<and> len d' = 0 \<and> dat d' = dat d))"
proof -
  have pos: "0 < len d" using assms(2) by simp
  have ne: "dat d \<noteq> []" using assms(1,2) by (auto simp: invar_def cap_def)
  define p where
    "p = d\<lparr>len := len d - 1, tail := (if tail d = 0 then cap (dat d) else tail d) - 1\<rparr>"
  define s where
    "s = d\<lparr>len := len d - 1, head := (if head d + 1 = cap (dat d) then 0 else head d + 1)\<rparr>"
  have ixp: "index_go (dat d) (tail d) = Inr (last (contents d))"
    and ixs: "index_go (dat d) (head d) = Inr (hd (contents d))"
    using pop_step(1) [OF assms(1) pos] shift_step(1) [OF assms(1) pos] by simp_all
  have P: "Pop d = (case shrink p of Inl e \<Rightarrow> Inl e
      | Inr d4 \<Rightarrow> Inr ((last (contents d), True), d4))"
    unfolding Pop_alt p_def [symmetric] using pos ixp by simp
  have S: "Shift d = (case shrink s of Inl e \<Rightarrow> Inl e
      | Inr d4 \<Rightarrow> Inr ((hd (contents d), True), d4))"
    unfolding Shift_alt s_def [symmetric] using pos ixs by simp
  have hp: "len p = 0" "Shrink p = ShrinkIfEmpty \<or> Shrink p = ShrinkAt20Pct" "dat p \<noteq> []"
    "Minsize p = Minsize d" "dat p = dat d"
    using assms(2,3) ne by (simp_all add: p_def)
  have hs: "len s = 0" "Shrink s = ShrinkIfEmpty \<or> Shrink s = ShrinkAt20Pct" "dat s \<noteq> []"
    "Minsize s = Minsize d" "dat s = dat d"
    using assms(2,3) ne by (simp_all add: s_def)
  have zero: "Pop d = Inr ((last (contents d), True),
        d\<lparr>len := 0, head := 0, tail := - 1, dat := []\<rparr>)
      \<and> Shift d = Inr ((hd (contents d), True),
        d\<lparr>len := 0, head := 0, tail := - 1, dat := []\<rparr>)"
    if "Minsize d = 0"
  proof -
    have "shrink p = Inr (p\<lparr>dat := [], head := 0, tail := - 1\<rparr>)"
      using shrink_last_element(1) [OF hp(1,2,3)] that hp(4) by simp
    moreover have "shrink s = Inr (s\<lparr>dat := [], head := 0, tail := - 1\<rparr>)"
      using shrink_last_element(1) [OF hs(1,2,3)] that hs(4) by simp
    ultimately show ?thesis
      unfolding P S using assms(2) by (simp add: p_def s_def)
  qed
  have neg: "(\<exists>d'. Pop d = Inr ((last (contents d), True), d') \<and> len d' = 0 \<and> dat d' = dat d)
      \<and> (\<exists>d'. Shift d = Inr ((hd (contents d), True), d') \<and> len d' = 0 \<and> dat d' = dat d)"
    if "Minsize d < 0"
  proof -
    have "shrink p = Inr p" and "shrink s = Inr s"
      using shrink_last_element(2) [OF hp(1,2,3)] shrink_last_element(2) [OF hs(1,2,3)]
        that hp(4) hs(4)
      by simp_all
    then show ?thesis unfolding P S using hp hs by simp
  qed
  have "Cap d \<noteq> 0" using ne by (simp add: Cap_def cap_def)
  with zero neg show ?thesis by blast
qed

theorem C10_shrink_to_zero_minsize_witness:
  "invar (WrapSlice (new_deque 0 ShrinkAt20Pct) [7 :: int] [0, 0])
   \<and> len (WrapSlice (new_deque 0 ShrinkAt20Pct) [7 :: int] [0, 0]) = 1
   \<and> Shrink (WrapSlice (new_deque 0 ShrinkAt20Pct) [7 :: int] [0, 0]) = ShrinkAt20Pct
   \<and> Minsize (WrapSlice (new_deque 0 ShrinkAt20Pct) [7 :: int] [0, 0]) = 0
   \<and> Cap (WrapSlice (new_deque 0 ShrinkAt20Pct) [7 :: int] [0, 0]) = 3
   \<and> Pop (WrapSlice (new_deque 0 ShrinkAt20Pct) [7 :: int] [0, 0])
     = Inr ((7, True), \<lparr>Minsize = 0, Shrink = 2, head = 0, tail = - 1, len = 0, dat = []\<rparr>)
   \<and> Shift (WrapSlice (new_deque 0 ShrinkAt20Pct) [7 :: int] [0, 0])
     = Inr ((7, True), \<lparr>Minsize = 0, Shrink = 2, head = 0, tail = - 1, len = 0, dat = []\<rparr>)"
proof -
  let ?d = "WrapSlice (new_deque 0 ShrinkAt20Pct) [7 :: int] [0, 0]"
  have e: "?d = \<lparr>Minsize = 0, Shrink = 2, head = 0, tail = 0, len = 1, dat = [7, 0, 0]\<rparr>"
    by (simp add: WrapSlice_def new_deque_def ShrinkAt20Pct_def cap_def Let_def)
  have h1: "invar ?d" by (rule WrapSlice_invar)
  have h2: "len ?d = 1" and h3: "Shrink ?d = ShrinkIfEmpty \<or> Shrink ?d = ShrinkAt20Pct"
    and h4: "Minsize ?d = 0" and h5: "Cap ?d = 3"
    unfolding e by (simp_all add: ShrinkAt20Pct_def Cap_def cap_def)
  have c: "contents ?d = [7]" by (rule WrapSlice_invar)
  from C10_shrink_to_zero_minsize [OF h1 h2 h3] h4
  have "Pop ?d = Inr ((last (contents ?d), True),
          ?d\<lparr>len := 0, head := 0, tail := - 1, dat := []\<rparr>)"
    and "Shift ?d = Inr ((hd (contents ?d), True),
          ?d\<lparr>len := 0, head := 0, tail := - 1, dat := []\<rparr>)"
    by blast+
  then have "Pop ?d
      = Inr ((7, True), \<lparr>Minsize = 0, Shrink = 2, head = 0, tail = - 1, len = 0, dat = []\<rparr>)"
    and "Shift ?d
      = Inr ((7, True), \<lparr>Minsize = 0, Shrink = 2, head = 0, tail = - 1, len = 0, dat = []\<rparr>)"
    unfolding c unfolding e by simp_all
  moreover have "Shrink ?d = ShrinkAt20Pct" unfolding e by (simp add: ShrinkAt20Pct_def)
  ultimately show ?thesis using h1 h2 h4 h5 by blast
qed

theorem C10_negative_minsize_counterexample:
  "Minsize (WrapSlice (new_deque (- 1) ShrinkIfEmpty) [7 :: int] []) \<le> 0
   \<and> Shrink (WrapSlice (new_deque (- 1) ShrinkIfEmpty) [7 :: int] []) = ShrinkIfEmpty
   \<and> Len (WrapSlice (new_deque (- 1) ShrinkIfEmpty) [7 :: int] []) = 1
   \<and> Cap (WrapSlice (new_deque (- 1) ShrinkIfEmpty) [7 :: int] []) = 1
   \<and> Pop (WrapSlice (new_deque (- 1) ShrinkIfEmpty) [7 :: int] [])
     = Inr ((7, True), \<lparr>Minsize = - 1, Shrink = 1, head = 0, tail = 0, len = 0, dat = [7]\<rparr>)
   \<and> Cap \<lparr>Minsize = - 1, Shrink = 1, head = 0, tail = 0, len = 0, dat = [7 :: int]\<rparr> \<noteq> 0"
  by (simp add: go_defs Let_def)

end
